theory Spec2Isabelle
  imports Main
begin

section \<open>Spreadsheet data (package xlsx, as far as exchange.go reads it)\<close>

text \<open>
  A cell is read only through its \<open>Value\<close>, a row only through its \<open>Cells\<close>;
  a sheet through \<open>Name\<close>, \<open>Rows\<close> and \<open>MaxRow\<close>; a file through \<open>Sheets\<close>.
  Rows are shared by pointer between the input file and the cleaned copy and are never
  written to, so they are modelled as values.
\<close>

type_synonym cell = string

type_synonym row = "cell list"

record sheet =
  Name :: string
  Rows :: "row list"
  MaxRow :: int

type_synonym xfile = "sheet list"

section \<open>preprocessXLSXFile (exchange.go, lines 105-142)\<close>

text \<open>
  The innermost loop (lines 119-127): \<open>empty\<close> starts true, a cell with a
  non-empty value sets it to false and leaves the loop.
\<close>

fun cells_empty :: "cell list \<Rightarrow> bool" where
  "cells_empty [] = True"
| "cells_empty (c # cs) = (if c = [] then cells_empty cs else False)"

text \<open>
  The loop over \<open>sheet.Rows\<close> (lines 114-134); the first argument is
  \<open>nsheet.Rows\<close>, which grows by \<open>append\<close>.
\<close>

fun keep_rows :: "row list \<Rightarrow> row list \<Rightarrow> row list" where
  "keep_rows nrows [] = nrows"
| "keep_rows nrows (r # rs) =
     (if length r = 0 then keep_rows nrows rs
      else if cells_empty r then keep_rows nrows rs
      else keep_rows (nrows @ [r]) rs)"

text \<open>
  The loop over \<open>xf.Sheets\<close> (lines 107-139); the first argument is the pair
  of the named results \<open>totalLines\<close> and \<open>nxf.Sheets\<close>.
\<close>

fun preprocess_sheets :: "int \<times> xfile \<Rightarrow> sheet list \<Rightarrow> int \<times> xfile" where
  "preprocess_sheets (totalLines, nxf) [] = (totalLines, nxf)"
| "preprocess_sheets (totalLines, nxf) (sh # shs) =
     (if length (Rows sh) = 0 then preprocess_sheets (totalLines, nxf) shs
      else
        let nsheet = sh\<lparr>Rows := keep_rows [] (Rows sh)\<rparr>;
            nsheet = nsheet\<lparr>MaxRow := int (length (Rows nsheet))\<rparr>
        in preprocess_sheets (totalLines + MaxRow nsheet, nxf @ [nsheet]) shs)"

definition preprocessXLSXFile :: "xfile \<Rightarrow> int \<times> xfile" where
  "preprocessXLSXFile xf = preprocess_sheets (0, []) xf"

text \<open>What the preprocessor makes of one sheet that it keeps.\<close>

definition clean_sheet :: "sheet \<Rightarrow> sheet" where
  "clean_sheet sh =
     (let rs = filter (\<lambda>r. \<not> cells_empty r) (Rows sh)
      in sh\<lparr>Rows := rs, MaxRow := int (length rs)\<rparr>)"

text \<open>The sheet of the spec's empty-row example, and a sheet whose only row is blank.\<close>

definition example_sheet :: sheet where
  "example_sheet =
     \<lparr>Name = ''Sheet1'',
      Rows = [[''a'', ''b''], ['''', '''', ''''], [''c'', ''d'']],
      MaxRow = 3\<rparr>"

definition blank_sheet :: sheet where
  "blank_sheet = \<lparr>Name = ''Sheet1'', Rows = [['''']], MaxRow = 1\<rparr>"

section \<open>Errors and panics\<close>

text \<open>
  Go errors are compared by identity: \<open>resource.ErrProcessorRecordNotFound\<close> is one
  fixed value, every other error is told apart by its message here. A panic (an index
  out of range, a negative WaitGroup counter) ends the whole program.
\<close>

datatype error = ErrProcessorRecordNotFound | Err string

datatype panic = IndexOutOfRange | NegativeWaitGroupCounter

section \<open>Meta, Resource and GetMetaValues (lines 34-51 and 238-264)\<close>

text \<open>
  \<open>res.Metas\<close> holds values of an interface type; the type assertion
  \<open>mr.(*Meta)\<close> succeeds on the \<open>Meta\<close> of this package only, and
  \<open>m.Resource.(*Resource)\<close> on the \<open>Resource\<close> of this package only. A
  schema is taken to be a finite tree (a resource does not contain itself).
\<close>

datatype metaor =
    OtherMetaor
  | Meta (Label: string) (MultiDelimiter: string) (HasSequentialColumns: bool)
      (Resource: resourcer)
and resourcer =
    NilResource
  | OtherResourcer
  | ExchangeResource (Metas: "metaor list")

text \<open>
  \<open>resource.MetaValue\<close> with its fields \<open>Name\<close>, \<open>Value\<close> (an interface
  value: nil, or the string stored at line 247), \<open>Meta\<close> and \<open>MetaValues\<close>;
  \<open>resource.MetaValues\<close> is the list \<open>Values\<close>.
\<close>

datatype metavalue =
  MetaValue (mv_Name: string) (mv_Value: "string option") (mv_Meta: metaor)
    (mv_MetaValues: "metavalue list")

type_synonym vmap = "string \<rightharpoonup> string"

text \<open>Reading a Go map at a missing key gives the zero value, the empty string.\<close>

definition lookup :: "vmap \<Rightarrow> string \<Rightarrow> string" where
  "lookup vmap k = (case vmap k of None \<Rightarrow> [] | Some v \<Rightarrow> v)"

text \<open>
  The Go map is passed by reference and \<open>delete\<close> changes it for the caller too,
  so the mapping is returned next to the values.
\<close>

fun GetMetaValues :: "metaor list \<Rightarrow> vmap \<Rightarrow> metavalue list \<times> vmap" where
  "GetMetaValues [] vmap = ([], vmap)"
| "GetMetaValues (OtherMetaor # mrs) vmap = GetMetaValues mrs vmap"
| "GetMetaValues (Meta l d q NilResource # mrs) vmap =
     (let mv = MetaValue l (Some (lookup vmap l)) (Meta l d q NilResource) [];
          (mvs, vmap') = GetMetaValues mrs (vmap(l := None))
      in (mv # mvs, vmap'))"
| "GetMetaValues (Meta l d q OtherResourcer # mrs) vmap = GetMetaValues mrs vmap"
| "GetMetaValues (Meta l d q (ExchangeResource ms) # mrs) vmap =
     (let (sub, vmap1) = GetMetaValues ms vmap;
          mv = MetaValue l None (Meta l d q (ExchangeResource ms)) sub;
          (mvs, vmap2) = GetMetaValues mrs vmap1
      in (mv # mvs, vmap2))"

text \<open>The labels that the traversal reads as scalars, at any depth.\<close>

fun scalar_labels :: "metaor list \<Rightarrow> string set" where
  "scalar_labels [] = {}"
| "scalar_labels (OtherMetaor # mrs) = scalar_labels mrs"
| "scalar_labels (Meta l d q NilResource # mrs) = insert l (scalar_labels mrs)"
| "scalar_labels (Meta l d q OtherResourcer # mrs) = scalar_labels mrs"
| "scalar_labels (Meta l d q (ExchangeResource ms) # mrs) =
     scalar_labels ms \<union> scalar_labels mrs"

text \<open>
  The spec's Field Value Set: a label with either a scalar text or a nested set. It is
  read off the \<open>Name\<close>, \<open>Value\<close> and \<open>MetaValues\<close> of each value.
\<close>

datatype field_value = Scalar string | Nested "(string \<times> field_value) list"

fun field_value_of :: "metavalue \<Rightarrow> string \<times> field_value" where
  "field_value_of (MetaValue n (Some v) m sub) = (n, Scalar v)"
| "field_value_of (MetaValue n None m sub) = (n, Nested (map field_value_of sub))"

text \<open>
  The same schema with the delimiter and the sequential-columns flag of every \<open>Meta\<close>
  set to the given values.
\<close>

fun set_options :: "string \<Rightarrow> bool \<Rightarrow> metaor list \<Rightarrow> metaor list" where
  "set_options d q [] = []"
| "set_options d q (OtherMetaor # mrs) = OtherMetaor # set_options d q mrs"
| "set_options d q (Meta l d' q' NilResource # mrs) =
     Meta l d q NilResource # set_options d q mrs"
| "set_options d q (Meta l d' q' OtherResourcer # mrs) =
     Meta l d q OtherResourcer # set_options d q mrs"
| "set_options d q (Meta l d' q' (ExchangeResource ms) # mrs) =
     Meta l d q (ExchangeResource (set_options d q ms)) # set_options d q mrs"

text \<open>The schemas and rows of the spec's examples.\<close>

definition name_meta :: metaor where
  "name_meta = Meta ''Name'' [] False NilResource"

definition city_meta :: metaor where
  "city_meta = Meta ''City'' [] False NilResource"

definition address_meta :: metaor where
  "address_meta = Meta ''Address'' [] False (ExchangeResource [city_meta])"

definition ann_row :: vmap where
  "ann_row = [''Name'' \<mapsto> ''Ann'', ''City'' \<mapsto> ''Oslo'']"

definition tags_meta :: metaor where
  "tags_meta = Meta ''Tags'' '','' True NilResource"

section \<open>The row mapping (lines 174-177)\<close>

text \<open>
  \<open>headers[j]\<close> panics when \<open>j\<close> is not below \<open>len(headers)\<close>; the second
  argument is the index \<open>j\<close>, the last one the mapping built so far.
\<close>

fun build_vmap :: "cell list \<Rightarrow> nat \<Rightarrow> cell list \<Rightarrow> vmap \<Rightarrow> panic + vmap" where
  "build_vmap headers j [] vmap = Inr vmap"
| "build_vmap headers j (c # cs) vmap =
     (if j < length headers then build_vmap headers (Suc j) cs (vmap(headers ! j \<mapsto> c))
      else Inl IndexOutOfRange)"

section \<open>One row: decode, validate, persist (lines 164-204)\<close>

text \<open>
  The processor of package resource and the database handle are collaborators outside
  this file. Their calls are functions on a world \<open>'w\<close> (the record being built and
  the database), each returning what the code reads from it: \<open>Initialize\<close> and
  \<open>db.Save(...).Error\<close> an error or nil, \<open>Validate\<close> and \<open>Commit\<close> a list of
  errors; \<open>ctx.DB.Begin()\<close> opens the transaction (line 151), and
  \<open>db.Rollback().Error\<close> and \<open>db.Commit().Error\<close> are read at lines 212 and 220.
\<close>

record 'w collaborator =
  DecodeToResource :: "metavalue list \<Rightarrow> 'w \<Rightarrow> 'w"
  p_Initialize :: "'w \<Rightarrow> error option \<times> 'w"
  p_Validate :: "'w \<Rightarrow> error list \<times> 'w"
  p_Commit :: "'w \<Rightarrow> error list \<times> 'w"
  db_Begin :: "'w \<Rightarrow> 'w"
  db_Save :: "'w \<Rightarrow> error option \<times> 'w"
  db_Rollback :: "'w \<Rightarrow> error option \<times> 'w"
  db_Commit :: "'w \<Rightarrow> error option \<times> 'w"

text \<open>The calls a row makes on the collaborators are logged in the order made.\<close>

datatype call = Initialize | Validate | Commit | Save

record ImportStatus =
  LineNum :: int
  Sheet :: string
  MetaValues :: "metavalue list"
  Errors :: "error list"

text \<open>Lines 200-203.\<close>

definition stage_save :: "'w collaborator \<Rightarrow> call list \<Rightarrow> 'w \<Rightarrow> error list \<times> call list \<times> 'w" where
  "stage_save c calls w =
     (case db_Save c w of
        (Some err, w') \<Rightarrow> ([err], calls @ [Save], w')
      | (None, w') \<Rightarrow> ([], calls @ [Save], w'))"

text \<open>Lines 194-198.\<close>

definition stage_commit :: "'w collaborator \<Rightarrow> call list \<Rightarrow> 'w \<Rightarrow> error list \<times> call list \<times> 'w" where
  "stage_commit c calls w =
     (case p_Commit c w of
        (errs, w') \<Rightarrow>
          if length errs > 0 then (errs, calls @ [Commit], w')
          else stage_save c (calls @ [Commit]) w')"

text \<open>Lines 188-192.\<close>

definition stage_validate :: "'w collaborator \<Rightarrow> call list \<Rightarrow> 'w \<Rightarrow> error list \<times> call list \<times> 'w" where
  "stage_validate c calls w =
     (case p_Validate c w of
        (errs, w') \<Rightarrow>
          if length errs > 0 then (errs, calls @ [Validate], w')
          else stage_commit c (calls @ [Validate]) w')"

text \<open>Lines 180-186.\<close>

definition run_stages :: "'w collaborator \<Rightarrow> metavalue list \<Rightarrow> 'w \<Rightarrow> error list \<times> call list \<times> 'w" where
  "run_stages c mvs w =
     (case p_Initialize c (DecodeToResource c mvs w) of
        (Some err, w') \<Rightarrow>
          if err \<noteq> ErrProcessorRecordNotFound then ([err], [Initialize], w')
          else stage_validate c [Initialize] w'
      | (None, w') \<Rightarrow> stage_validate c [Initialize] w')"

text \<open>
  The body of the goroutine up to its deferred function (lines 165 and 174-203).
  \<open>LineNum\<close> is never assigned and keeps its zero value.
\<close>

definition row_task ::
  "'w collaborator \<Rightarrow> metaor list \<Rightarrow> string \<Rightarrow> cell list \<Rightarrow> row \<Rightarrow> 'w
     \<Rightarrow> panic + (ImportStatus \<times> call list \<times> 'w)" where
  "row_task c metas sheet_name headers r w =
     (let ii = \<lparr>LineNum = 0, Sheet = sheet_name, MetaValues = [], Errors = []\<rparr>
      in case build_vmap headers 0 r Map.empty of
           Inl p \<Rightarrow> Inl p
         | Inr vmap \<Rightarrow>
             let ii = ii\<lparr>MetaValues := fst (GetMetaValues metas vmap)\<rparr>;
                 (errs, calls, w') = run_stages c (MetaValues ii) w
             in Inr (ii\<lparr>Errors := errs\<rparr>, calls, w'))"

text \<open>
  A collaborator for the examples: the world is a number that chooses the stage that
  fails (0 initialization, 1 validation with two errors, 2 commit, 3 save, 4 record
  not found at initialization, anything else none).
\<close>

definition demo :: "nat collaborator" where
  "demo =
     \<lparr>DecodeToResource = (\<lambda>mvs w. w),
      p_Initialize = (\<lambda>w. (if w = 0 then Some (Err ''init'')
                           else if w = 4 then Some ErrProcessorRecordNotFound else None, w)),
      p_Validate = (\<lambda>w. (if w = 1 then [Err ''blank'', Err ''short''] else [], w)),
      p_Commit = (\<lambda>w. (if w = 2 then [Err ''commit''] else [], w)),
      db_Begin = (\<lambda>w. w),
      db_Save = (\<lambda>w. (if w = 3 then Some (Err ''save'') else None, w)),
      db_Rollback = (\<lambda>w. (Some (Err ''rollback''), w)),
      db_Commit = (\<lambda>w. (None, w))\<rparr>"

section \<open>Commit or rollback (lines 210-226)\<close>

text \<open>
  What the code sends on \<open>fi.Done\<close> and \<open>fi.Error\<close> from the label
  \<open>rollback\<close> on, in the order sent, given the value of \<open>hasError\<close> there.
\<close>

datatype signal = Done bool | Error error

definition job_error :: error where
  "job_error = Err ''meet error in job processing''"

definition conclude :: "'w collaborator \<Rightarrow> bool \<Rightarrow> 'w \<Rightarrow> signal list \<times> 'w" where
  "conclude c hasError w =
     (if hasError then
        (case db_Rollback c w of
           (Some err, w') \<Rightarrow> ([Error err, Error job_error], w')
         | (None, w') \<Rightarrow> ([Error job_error], w'))
      else
        (case db_Commit c w of
           (Some err, w') \<Rightarrow> ([Error err], w')
         | (None, w') \<Rightarrow> ([Done True], w')))"

fun is_Done :: "signal \<Rightarrow> bool" where
  "is_Done (Done b) = True"
| "is_Done (Error e) = False"

fun is_Error :: "signal \<Rightarrow> bool" where
  "is_Error (Done b) = False"
| "is_Error (Error e) = True"

section \<open>Import (lines 74-103)\<close>

text \<open>
  The outcomes of the calls into the operating system and the decoders are given by
  \<open>import_io\<close>; the file system is the set of temporary files on disk and the set of
  open handles. \<open>os.Remove\<close> is taken to succeed on a file that is still open. The
  deferred calls run at every return after their registration, last registered first.
  A successful call returns \<open>TotalLines\<close> and starts \<open>process\<close> on the cleaned file.
\<close>

record import_io =
  TempFile :: "error + string"
  Copy :: "error option"
  OpenReader :: "error option"
  ReadZip :: "error + xfile"

record fs =
  temp_files :: "string set"
  open_handles :: "string set"

definition f_Close :: "string \<Rightarrow> fs \<Rightarrow> fs" where
  "f_Close name s = s\<lparr>open_handles := open_handles s - {name}\<rparr>"

definition os_Remove :: "string \<Rightarrow> fs \<Rightarrow> fs" where
  "os_Remove name s = s\<lparr>temp_files := temp_files s - {name}\<rparr>"

definition Import :: "import_io \<Rightarrow> fs \<Rightarrow> (error + int \<times> xfile) \<times> fs" where
  "Import io s =
     (case TempFile io of
        Inl err \<Rightarrow> (Inl err, s)
      | Inr name \<Rightarrow>
          let s1 = s\<lparr>temp_files := insert name (temp_files s),
                     open_handles := insert name (open_handles s)\<rparr>
          in case Copy io of
               Some err \<Rightarrow> (Inl err, f_Close name s1)
             | None \<Rightarrow>
                 (case OpenReader io of
                    Some err \<Rightarrow> (Inl err, f_Close name (os_Remove name s1))
                  | None \<Rightarrow>
                      (case ReadZip io of
                         Inl err \<Rightarrow> (Inl err, f_Close name (os_Remove name s1))
                       | Inr xf \<Rightarrow>
                           (Inr (preprocessXLSXFile xf),
                            f_Close name (os_Remove name s1)))))"

definition failing_copy :: import_io where
  "failing_copy =
     \<lparr>TempFile = Inr ''qor.exchange.1'', Copy = Some (Err ''unexpected EOF''),
      OpenReader = None, ReadZip = Inr []\<rparr>"

definition empty_fs :: fs where
  "empty_fs = \<lparr>temp_files = {}, open_handles = {}\<rparr>"

section \<open>process (lines 144-208): the job and its goroutines\<close>

text \<open>
  The job runs as one main goroutine (the body of \<open>process\<close>), one goroutine per
  submitted row, and the caller of \<open>Import\<close>, which receives from the channels. A
  state holds the shared variables; a step is one statement of one goroutine, and the
  steps of the goroutines interleave in any order. Reads and writes of \<open>hasError\<close>
  are taken to be atomic.

  The main goroutine is at one of these places: at the head of the loop over the
  sheets (with the sheets still to visit); before \<open>throttle <- true\<close> for the next
  row (with the header cells, the index \<open>i\<close>, the rows and the sheets still to
  visit); at the test of \<open>hasError\<close> for the row just admitted; in
  \<open>wait.Wait()\<close>; at the label \<open>rollback\<close>; at the sends on \<open>fi.Error\<close>
  and \<open>fi.Done\<close> still to make; or returned.
\<close>

datatype pc =
    ForSheets "sheet list"
  | Send "cell list" int "row list" "sheet list"
  | Check "cell list" int row "row list" "sheet list"
  | Wait
  | Rollback
  | Sending "signal list"
  | Returned

text \<open>
  A row's goroutine is at its body (lines 165-203, taken as one step) or at one of the
  four statements of its deferred function (lines 168-171). A panic in the body runs
  the deferred function first and ends the program when that has returned.
\<close>

datatype place = Body | SetFlag | Emit | Release | WaitDone

record worker =
  w_place :: place
  w_line :: int
  w_row :: row
  w_headers :: "cell list"
  w_ii :: ImportStatus
  w_panic :: "panic option"

text \<open>
  \<open>throttle\<close> is the number of values in the channel of capacity 20 and
  \<open>closed\<close> whether it has been closed; \<open>wait\<close> is the counter of the
  WaitGroup; \<open>iic\<close> is the content of the status channel of capacity 10 and
  \<open>received\<close> what the caller has taken from it; \<open>signals\<close> is what the caller
  has received on \<open>fi.Done\<close> and \<open>fi.Error\<close>, which are unbuffered;
  \<open>sheet_var\<close> is the loop variable \<open>sheet\<close>, one variable for the whole loop,
  which a row's goroutine reads when it starts to run; \<open>submitted\<close> counts the
  \<open>go\<close> statements executed; \<open>decided\<close> records the value of
  \<open>hasError\<close> and the world that the main goroutine read at the label
  \<open>rollback\<close> (line 211), once it has been there; \<open>crashed\<close> is set when a
  panic has ended the program.
\<close>

record 'w state =
  pc :: pc
  sheet_var :: sheet
  workers :: "worker list"
  throttle :: nat
  closed :: bool
  hasError :: bool
  wait :: int
  iic :: "ImportStatus list"
  received :: "ImportStatus list"
  signals :: "signal list"
  world :: 'w
  submitted :: nat
  decided :: "(bool \<times> 'w) option"
  crashed :: "panic option"

text \<open>
  Lines 145-151. \<open>wait.Add\<close> panics when it makes the counter negative.
\<close>

definition process_init :: "'w collaborator \<Rightarrow> int \<Rightarrow> xfile \<Rightarrow> 'w \<Rightarrow> 'w state" where
  "process_init c totalLines xf w =
     \<lparr>pc = ForSheets xf,
      sheet_var = \<lparr>Name = [], Rows = [], MaxRow = 0\<rparr>,
      workers = [],
      throttle = 0,
      closed = False,
      hasError = False,
      wait = totalLines - 1,
      iic = [],
      received = [],
      signals = [],
      world = (if totalLines - 1 < 0 then w else db_Begin c w),
      submitted = 0,
      decided = None,
      crashed = (if totalLines - 1 < 0 then Some NegativeWaitGroupCounter else None)\<rparr>"

text \<open>The goroutine started by the \<open>go\<close> statement at line 164.\<close>

definition new_worker :: "int \<Rightarrow> row \<Rightarrow> cell list \<Rightarrow> worker" where
  "new_worker i r hs =
     \<lparr>w_place = Body, w_line = i, w_row = r, w_headers = hs,
      w_ii = \<lparr>LineNum = 0, Sheet = [], MetaValues = [], Errors = []\<rparr>,
      w_panic = None\<rparr>"

text \<open>
  One step of the main goroutine, or \<open>None\<close> where it is blocked (the channel
  \<open>throttle\<close> is full, the WaitGroup counter is not zero) or has returned.
\<close>

fun main_step :: "'w collaborator \<Rightarrow> pc \<Rightarrow> 'w state \<Rightarrow> 'w state option" where
  "main_step c (ForSheets []) s = Some (s\<lparr>pc := Wait\<rparr>)"
| "main_step c (ForSheets (sh # shs)) s =
     (if length (Rows sh) \<le> 1 then Some (s\<lparr>sheet_var := sh, pc := ForSheets shs\<rparr>)
      else Some (s\<lparr>sheet_var := sh, pc := Send (hd (Rows sh)) 0 (tl (Rows sh)) shs\<rparr>))"
| "main_step c (Send hs i [] shs) s = Some (s\<lparr>pc := ForSheets shs\<rparr>)"
| "main_step c (Send hs i (r # rs) shs) s =
     (if throttle s < 20 then Some (s\<lparr>throttle := throttle s + 1, pc := Check hs i r rs shs\<rparr>)
      else None)"
| "main_step c (Check hs i r rs shs) s =
     (if hasError s then Some (s\<lparr>pc := Rollback\<rparr>)
      else Some (s\<lparr>workers := workers s @ [new_worker i r hs],
                    submitted := submitted s + 1,
                    pc := Send hs (i + 1) rs shs\<rparr>))"
| "main_step c Wait s = (if wait s = 0 then Some (s\<lparr>pc := Rollback\<rparr>) else None)"
| "main_step c Rollback s =
     (case conclude c (hasError s) (world s) of
        (sigs, w') \<Rightarrow>
          Some (s\<lparr>decided := Some (hasError s, world s), pc := Sending sigs,
                  world := w'\<rparr>))"
| "main_step c (Sending (sg # sgs)) s =
     Some (s\<lparr>signals := signals s @ [sg], pc := Sending sgs\<rparr>)"
| "main_step c (Sending []) s = Some (s\<lparr>closed := True, pc := Returned\<rparr>)"
| "main_step c Returned s = None"

text \<open>
  One step of the goroutine \<open>wk\<close>, which is at position \<open>k\<close> of the list, or
  \<open>None\<close> where it is blocked (the status channel is full; \<open>throttle\<close> is empty
  and open). A receive from the closed channel returns at once. \<open>wait.Done()\<close>
  panics when it makes the counter negative; a goroutine that returns is removed.
\<close>

definition worker_step ::
  "'w collaborator \<Rightarrow> metaor list \<Rightarrow> nat \<Rightarrow> worker \<Rightarrow> 'w state \<Rightarrow> 'w state option" where
  "worker_step c metas k wk s =
     (case w_place wk of
        Body \<Rightarrow>
          (case row_task c metas (Name (sheet_var s)) (w_headers wk) (w_row wk) (world s) of
             Inl p \<Rightarrow>
               Some (s\<lparr>workers := (workers s)[k := wk\<lparr>w_place := SetFlag,
                          w_ii := \<lparr>LineNum = 0, Sheet = Name (sheet_var s),
                                   MetaValues = [], Errors = []\<rparr>,
                          w_panic := Some p\<rparr>]\<rparr>)
           | Inr (ii, calls, w') \<Rightarrow>
               Some (s\<lparr>workers := (workers s)[k := wk\<lparr>w_place := SetFlag, w_ii := ii\<rparr>],
                       world := w'\<rparr>))
      | SetFlag \<Rightarrow>
          Some (s\<lparr>hasError := (length (Errors (w_ii wk)) > 0),
                  workers := (workers s)[k := wk\<lparr>w_place := Emit\<rparr>]\<rparr>)
      | Emit \<Rightarrow>
          (if length (iic s) < 10
           then Some (s\<lparr>iic := iic s @ [w_ii wk],
                        workers := (workers s)[k := wk\<lparr>w_place := Release\<rparr>]\<rparr>)
           else None)
      | Release \<Rightarrow>
          (if throttle s > 0
           then Some (s\<lparr>throttle := throttle s - 1,
                        workers := (workers s)[k := wk\<lparr>w_place := WaitDone\<rparr>]\<rparr>)
           else if closed s
           then Some (s\<lparr>workers := (workers s)[k := wk\<lparr>w_place := WaitDone\<rparr>]\<rparr>)
           else None)
      | WaitDone \<Rightarrow>
          (if wait s - 1 < 0 then Some (s\<lparr>crashed := Some NegativeWaitGroupCounter\<rparr>)
           else Some (s\<lparr>wait := wait s - 1,
                        workers := take k (workers s) @ drop (Suc k) (workers s),
                        crashed := w_panic wk\<rparr>)))"

text \<open>The caller of \<open>Import\<close> receives the next status from the status channel.\<close>

definition caller_step :: "'w state \<Rightarrow> 'w state option" where
  "caller_step s =
     (case iic s of
        [] \<Rightarrow> None
      | ii # rest \<Rightarrow> Some (s\<lparr>iic := rest, received := received s @ [ii]\<rparr>))"

text \<open>A step of the job: a step of any goroutine, as long as no panic has ended the program.\<close>

inductive step :: "'w collaborator \<Rightarrow> metaor list \<Rightarrow> 'w state \<Rightarrow> 'w state \<Rightarrow> bool"
  for c :: "'w collaborator" and metas :: "metaor list" where
  main: "crashed s = None \<Longrightarrow> main_step c (pc s) s = Some s' \<Longrightarrow> step c metas s s'"
| worker: "crashed s = None \<Longrightarrow> k < length (workers s) \<Longrightarrow>
     worker_step c metas k (workers s ! k) s = Some s' \<Longrightarrow> step c metas s s'"
| caller: "crashed s = None \<Longrightarrow> caller_step s = Some s' \<Longrightarrow> step c metas s s'"

inductive reach :: "'w collaborator \<Rightarrow> metaor list \<Rightarrow> 'w state \<Rightarrow> 'w state \<Rightarrow> bool"
  for c :: "'w collaborator" and metas :: "metaor list" and s0 :: "'w state" where
  init: "reach c metas s0 s0"
| more: "reach c metas s0 s \<Longrightarrow> step c metas s s' \<Longrightarrow> reach c metas s0 s'"

text \<open>
  A schedule for the examples: the main goroutine runs when it can, else the first row
  goroutine, else the caller receives.
\<close>

definition schedule :: "'w collaborator \<Rightarrow> metaor list \<Rightarrow> 'w state \<Rightarrow> 'w state option" where
  "schedule c metas s =
     (if crashed s \<noteq> None then None
      else case main_step c (pc s) s of
             Some s' \<Rightarrow> Some s'
           | None \<Rightarrow>
               (case (case workers s of [] \<Rightarrow> None | wk # wks \<Rightarrow> worker_step c metas 0 wk s) of
                  Some s' \<Rightarrow> Some s'
                | None \<Rightarrow> caller_step s))"

fun run :: "'w collaborator \<Rightarrow> metaor list \<Rightarrow> nat \<Rightarrow> 'w state \<Rightarrow> 'w state" where
  "run c metas 0 s = s"
| "run c metas (Suc n) s =
     (case schedule c metas s of None \<Rightarrow> s | Some s' \<Rightarrow> run c metas n s')"

text \<open>
  The job that \<open>Import\<close> starts at line 100: \<open>process\<close> on the cleaned file, with
  the total that the preprocessor returned.
\<close>

definition import_job :: "'w collaborator \<Rightarrow> xfile \<Rightarrow> 'w \<Rightarrow> 'w state" where
  "import_job c xf w =
     process_init c (fst (preprocessXLSXFile xf)) (snd (preprocessXLSXFile xf)) w"

text \<open>
  The statuses sent on the status channel so far; the rows that the loop nest of
  \<open>process\<close> visits (all rows but the first of every sheet with more than one row);
  the goroutines that still hold their slot; the goroutines that have not sent their
  status yet.
\<close>

definition emitted :: "'w state \<Rightarrow> ImportStatus list" where
  "emitted s = received s @ iic s"

fun data_rows :: "sheet list \<Rightarrow> nat" where
  "data_rows [] = 0"
| "data_rows (sh # shs) =
     (if length (Rows sh) \<le> 1 then data_rows shs
      else length (tl (Rows sh)) + data_rows shs)"

definition holds_slot :: "worker \<Rightarrow> bool" where
  "holds_slot wk = (w_place wk = Body \<or> w_place wk = SetFlag \<or> w_place wk = Emit
                     \<or> w_place wk = Release)"

definition in_flight :: "'w state \<Rightarrow> nat" where
  "in_flight s = length (filter holds_slot (workers s))"

definition not_emitted :: "worker \<Rightarrow> bool" where
  "not_emitted wk = (w_place wk = Body \<or> w_place wk = SetFlag \<or> w_place wk = Emit)"

text \<open>
  What the main goroutine holds of the channel \<open>throttle\<close> for a row admitted but
  not started yet; the rows it has still to submit; whether it is inside the loop,
  and whether it has left it.
\<close>

fun admitting :: "pc \<Rightarrow> nat" where
  "admitting (Check hs i r rs shs) = 1"
| "admitting p = 0"

fun pending :: "pc \<Rightarrow> nat" where
  "pending (ForSheets shs) = data_rows shs"
| "pending (Send hs i rs shs) = length rs + data_rows shs"
| "pending (Check hs i r rs shs) = 1 + length rs + data_rows shs"
| "pending p = 0"

fun in_loop :: "pc \<Rightarrow> bool" where
  "in_loop (ForSheets shs) = True"
| "in_loop (Send hs i rs shs) = True"
| "in_loop (Check hs i r rs shs) = True"
| "in_loop p = False"

fun left_loop :: "pc \<Rightarrow> bool" where
  "left_loop Rollback = True"
| "left_loop (Sending sgs) = True"
| "left_loop Returned = True"
| "left_loop p = False"

text \<open>
  A status with errors has been sent, or is about to be sent by a goroutine that has
  set \<open>hasError\<close>.
\<close>

definition failure_seen :: "'w state \<Rightarrow> bool" where
  "failure_seen s =
     (list_ex (\<lambda>ii. Errors ii \<noteq> []) (emitted s)
      \<or> list_ex (\<lambda>wk. w_place wk = Emit \<and> Errors (w_ii wk) \<noteq> []) (workers s))"

text \<open>
  The invariants of the job: every submitted row has sent its status or has still to
  send it; the rows submitted and the rows still to submit make up the rows of the
  file, unless the loop was left after a failure was seen, and \<open>hasError\<close> is set
  only after a failure; the goroutines holding a slot, and the row admitted but not
  started, are covered by the values in \<open>throttle\<close>, which are at most 20.
\<close>

definition count_ok :: "'w state \<Rightarrow> bool" where
  "count_ok s = (submitted s = length (emitted s) + length (filter not_emitted (workers s)))"

definition loop_ok :: "nat \<Rightarrow> 'w state \<Rightarrow> bool" where
  "loop_ok d s =
     ((submitted s + pending (pc s) = d \<or> (left_loop (pc s) \<and> failure_seen s))
      \<and> (hasError s \<longrightarrow> failure_seen s)
      \<and> submitted s + pending (pc s) \<le> d)"

definition slots_ok :: "'w state \<Rightarrow> bool" where
  "slots_ok s =
     (in_flight s + admitting (pc s) \<le> throttle s \<and> throttle s \<le> 20
      \<and> (in_loop (pc s) \<longrightarrow> throttle s = in_flight s + admitting (pc s)))"

text \<open>
  The WaitGroup counter, the rows submitted and the goroutines that have not returned;
  and a job that has sent no signal unless it left the loop after a failure was seen.
\<close>

definition wait_ok :: "int \<Rightarrow> 'w state \<Rightarrow> bool" where
  "wait_ok t s = (wait s + int (submitted s) = t - 1 + int (length (workers s)))"

definition quiet_ok :: "'w state \<Rightarrow> bool" where
  "quiet_ok s = (if left_loop (pc s) then failure_seen s else signals s = [])"

text \<open>
  What has been sent on \<open>fi.Done\<close> and \<open>fi.Error\<close>, together with what is
  still to send, is what the code from the label \<open>rollback\<close> on sends for the
  value of \<open>hasError\<close> and the world read there; before that label nothing has
  been read and nothing sent.
\<close>

fun signals_at ::
  "'w collaborator \<Rightarrow> pc \<Rightarrow> (bool \<times> 'w) option \<Rightarrow> signal list \<Rightarrow> bool" where
  "signals_at c (Sending rest) (Some (h, w)) sgs = (sgs @ rest = fst (conclude c h w))"
| "signals_at c Returned (Some (h, w)) sgs = (sgs = fst (conclude c h w))"
| "signals_at c (Sending rest) None sgs = False"
| "signals_at c Returned None sgs = False"
| "signals_at c p dec sgs = (sgs = [] \<and> dec = None)"

definition signals_ok :: "'w collaborator \<Rightarrow> 'w state \<Rightarrow> bool" where
  "signals_ok c s = signals_at c (pc s) (decided s) (signals s)"

text \<open>
  The value of \<open>hasError\<close> that the main goroutine read at the label
  \<open>rollback\<close>; when it was set, a status with errors has been seen.
\<close>

fun flag_of :: "(bool \<times> 'w) option \<Rightarrow> bool" where
  "flag_of None = False"
| "flag_of (Some (h, w)) = h"

definition flagged_ok :: "'w state \<Rightarrow> bool" where
  "flagged_ok s = (flag_of (decided s) \<longrightarrow> failure_seen s)"

text \<open>
  A bound on the steps that a job can still make: every step of the main goroutine, of
  a row goroutine and of the caller makes it smaller.
\<close>

fun place_weight :: "place \<Rightarrow> nat" where
  "place_weight Body = 6"
| "place_weight SetFlag = 5"
| "place_weight Emit = 4"
| "place_weight Release = 2"
| "place_weight WaitDone = 1"

fun sheets_weight :: "sheet list \<Rightarrow> nat" where
  "sheets_weight [] = 6"
| "sheets_weight (sh # shs) = 8 * length (Rows sh) + 2 + sheets_weight shs"

fun pc_weight :: "pc \<Rightarrow> nat" where
  "pc_weight (ForSheets shs) = sheets_weight shs"
| "pc_weight (Send hs i rs shs) = 8 * length rs + 1 + sheets_weight shs"
| "pc_weight (Check hs i r rs shs) = 8 * length rs + 8 + sheets_weight shs"
| "pc_weight Wait = 5"
| "pc_weight Rollback = 4"
| "pc_weight (Sending rest) = length rest + 1"
| "pc_weight Returned = 0"

definition job_weight :: "'w state \<Rightarrow> nat" where
  "job_weight s =
     (if crashed s = None then 1 else 0) + pc_weight (pc s)
       + sum_list (map (\<lambda>wk. place_weight (w_place wk)) (workers s)) + length (iic s)"

text \<open>
  Every row after the first of a sheet has at most as many cells as the first row; the
  same for the rows that the main goroutine has still to submit and for the rows of
  the goroutines, none of which is panicking.
\<close>

fun rows_fit :: "sheet list \<Rightarrow> bool" where
  "rows_fit [] = True"
| "rows_fit (sh # shs) =
     (list_all (\<lambda>r. length r \<le> length (hd (Rows sh))) (tl (Rows sh)) \<and> rows_fit shs)"

fun pc_fit :: "pc \<Rightarrow> bool" where
  "pc_fit (ForSheets shs) = rows_fit shs"
| "pc_fit (Send hs i rs shs) = (list_all (\<lambda>r. length r \<le> length hs) rs \<and> rows_fit shs)"
| "pc_fit (Check hs i r rs shs) =
     (length r \<le> length hs \<and> list_all (\<lambda>r. length r \<le> length hs) rs \<and> rows_fit shs)"
| "pc_fit p = True"

definition worker_fit :: "worker \<Rightarrow> bool" where
  "worker_fit wk = (length (w_row wk) \<le> length (w_headers wk) \<and> w_panic wk = None)"

definition fit_ok :: "'w state \<Rightarrow> bool" where
  "fit_ok s = (pc_fit (pc s) \<and> list_all worker_fit (workers s))"

text \<open>The cleaned file has exactly one sheet that keeps a row.\<close>

definition one_sheet :: "xfile \<Rightarrow> bool" where
  "one_sheet xf = (length (filter (\<lambda>sh. Rows sh \<noteq> []) (snd (preprocessXLSXFile xf))) = 1)"

text \<open>
  A file with one sheet of a header row and one data row, and the state of its job after
  17 steps of the schedule; a file with one sheet of a header row and 21 data rows, and
  the state of its job after 42 steps.
\<close>

definition one_row_file :: xfile where
  "one_row_file = [\<lparr>Name = ''People'', Rows = [[''Name''], [''Ann'']], MaxRow = 2\<rparr>]"

definition one_row_final :: "nat state" where
  "one_row_final = run demo [name_meta] 17 (import_job demo one_row_file 5)"

text \<open>
  The job of the same file in the world where validation fails, after 17 steps.
\<close>

definition failed_row_final :: "nat state" where
  "failed_row_final = run demo [name_meta] 17 (import_job demo one_row_file 1)"

definition many_rows_file :: xfile where
  "many_rows_file =
     [\<lparr>Name = ''People'', Rows = [''Name''] # replicate 21 [''Ann''], MaxRow = 22\<rparr>]"

definition many_rows_blocked :: "nat state" where
  "many_rows_blocked = run demo [name_meta] 42 (import_job demo many_rows_file 5)"

section \<open>The preprocessor: row counts\<close>

lemma keep_rows_acc: "keep_rows nrows rs = nrows @ keep_rows [] rs"
proof (induction rs arbitrary: nrows)
  case Nil
  show ?case by simp
next
  case (Cons r rs)
  have "keep_rows (nrows @ [r]) rs = nrows @ keep_rows [r] rs"
    using Cons.IH [of "nrows @ [r]"] Cons.IH [of "[r]"] by simp
  with Cons.IH [of nrows] show ?case by simp
qed

lemma keep_rows_filter: "keep_rows [] rs = filter (\<lambda>r. \<not> cells_empty r) rs"
proof (induction rs)
  case Nil
  show ?case by simp
next
  case (Cons r rs)
  show ?case
  proof (cases "cells_empty r")
    case True
    with Cons show ?thesis by simp
  next
    case False
    then have "r \<noteq> []" by auto
    with False Cons keep_rows_acc [of "[r]" rs] show ?thesis by simp
  qed
qed

lemma preprocess_sheets_acc:
  "preprocess_sheets (t, nxf) shs =
     (t + (\<Sum>sh\<leftarrow>filter (\<lambda>sh. Rows sh \<noteq> []) shs. MaxRow (clean_sheet sh)),
      nxf @ map clean_sheet (filter (\<lambda>sh. Rows sh \<noteq> []) shs))"
proof (induction shs arbitrary: t nxf)
  case Nil
  show ?case by simp
next
  case (Cons sh shs)
  show ?case
  proof (cases "Rows sh = []")
    case True
    with Cons show ?thesis by simp
  next
    case False
    then show ?thesis
      by (simp add: Cons Let_def keep_rows_filter clean_sheet_def)
  qed
qed

lemma preprocess_eq:
  "preprocessXLSXFile xf =
     ((\<Sum>sh\<leftarrow>filter (\<lambda>sh. Rows sh \<noteq> []) xf. MaxRow (clean_sheet sh)),
      map clean_sheet (filter (\<lambda>sh. Rows sh \<noteq> []) xf))"
  by (simp add: preprocessXLSXFile_def preprocess_sheets_acc)

lemma MaxRow_clean_sheet: "MaxRow (clean_sheet sh) = int (length (Rows (clean_sheet sh)))"
  by (simp add: clean_sheet_def Let_def)

lemma clean_sheet_idem: "clean_sheet (clean_sheet sh) = clean_sheet sh"
  by (simp add: clean_sheet_def Let_def)

lemma total_is_sum_of_rows:
  "fst (preprocessXLSXFile xf) = (\<Sum>sh\<leftarrow>snd (preprocessXLSXFile xf). int (length (Rows sh)))"
  by (simp add: preprocess_eq MaxRow_clean_sheet comp_def)

lemma sum_filter_rows:
  "(\<Sum>sh\<leftarrow>filter (\<lambda>sh. Rows sh \<noteq> []) shs. int (length (Rows sh))) = (\<Sum>sh\<leftarrow>shs. int (length (Rows sh)))"
  by (induction shs) auto

lemma preprocess_total_stable:
  "fst (preprocessXLSXFile (snd (preprocessXLSXFile xf))) = fst (preprocessXLSXFile xf)"
proof -
  let ?ys = "map clean_sheet (filter (\<lambda>sh. Rows sh \<noteq> []) xf)"
  have "fst (preprocessXLSXFile ?ys) =
      (\<Sum>sh\<leftarrow>filter (\<lambda>sh. Rows sh \<noteq> []) ?ys. int (length (Rows sh)))"
    by (simp add: preprocess_eq MaxRow_clean_sheet clean_sheet_idem comp_def filter_map)
  also have "\<dots> = (\<Sum>sh\<leftarrow>?ys. int (length (Rows sh)))"
    by (rule sum_filter_rows)
  finally show ?thesis
    by (simp add: preprocess_eq MaxRow_clean_sheet comp_def)
qed

lemma preprocess_twice_stable:
  "snd (preprocessXLSXFile (snd (preprocessXLSXFile (snd (preprocessXLSXFile xf))))) =
   snd (preprocessXLSXFile (snd (preprocessXLSXFile xf)))"
  by (simp add: preprocess_eq filter_map comp_def clean_sheet_idem)

text \<open>
  C2, as amended: the total returned by the preprocessor is the number of all surviving
  rows of all kept sheets, the first (header) row of each sheet included; a sheet is
  kept when it has a row at all, and of a kept sheet the rows with a non-empty cell
  survive, in order. For the sheet
  \<open>[["a","b"], ["","",""], ["c","d"]]\<close> two rows survive and the total is 2.
\<close>

theorem preprocess_total_counts_all_rows:
  "fst (preprocessXLSXFile xf) = (\<Sum>sh\<leftarrow>snd (preprocessXLSXFile xf). int (length (Rows sh)))
   \<and> snd (preprocessXLSXFile xf) = map clean_sheet (filter (\<lambda>sh. Rows sh \<noteq> []) xf)
   \<and> preprocessXLSXFile [example_sheet] =
       (2, [\<lparr>Name = ''Sheet1'', Rows = [[''a'', ''b''], [''c'', ''d'']], MaxRow = 2\<rparr>])"
proof -
  have "preprocessXLSXFile [example_sheet] =
       (2, [\<lparr>Name = ''Sheet1'', Rows = [[''a'', ''b''], [''c'', ''d'']], MaxRow = 2\<rparr>])"
    by (simp add: preprocessXLSXFile_def example_sheet_def)
  then show ?thesis
    using total_is_sum_of_rows [of xf] by (simp add: preprocess_eq)
qed

text \<open>
  C2, as stated, fails on its own example: two rows survive, and the total is not 1.
\<close>

theorem preprocess_example_total_counterexample:
  "map Rows (snd (preprocessXLSXFile [example_sheet])) = [[[''a'', ''b''], [''c'', ''d'']]]
   \<and> fst (preprocessXLSXFile [example_sheet]) \<noteq> 1"
  by (simp add: preprocessXLSXFile_def example_sheet_def)

text \<open>
  C7 fails on a file whose only sheet has a single blank row: the sheet is tested for
  emptiness before its rows are filtered, so the first pass keeps it with no rows, and
  the second pass removes it. (By \<open>preprocess_total_stable\<close> the total line
  count is always kept, and by \<open>preprocess_twice_stable\<close> the second pass is
  final.)
\<close>

theorem preprocess_blank_sheet_not_idempotent:
  "preprocessXLSXFile [blank_sheet] = (0, [\<lparr>Name = ''Sheet1'', Rows = [], MaxRow = 0\<rparr>])
   \<and> preprocessXLSXFile (snd (preprocessXLSXFile [blank_sheet])) = (0, [])"
  by (simp add: preprocessXLSXFile_def blank_sheet_def)

section \<open>The field mapper\<close>

lemma GetMetaValues_scalar:
  "GetMetaValues (Meta l d q NilResource # mrs) vmap =
     (MetaValue l (Some (lookup vmap l)) (Meta l d q NilResource) []
        # fst (GetMetaValues mrs (vmap(l := None))),
      snd (GetMetaValues mrs (vmap(l := None))))"
  by (simp add: Let_def split_def)

lemma GetMetaValues_nested:
  "GetMetaValues (Meta l d q (ExchangeResource ms) # mrs) vmap =
     (MetaValue l None (Meta l d q (ExchangeResource ms)) (fst (GetMetaValues ms vmap))
        # fst (GetMetaValues mrs (snd (GetMetaValues ms vmap))),
      snd (GetMetaValues mrs (snd (GetMetaValues ms vmap))))"
  by (simp add: Let_def split_def)

lemma GetMetaValues_consumes:
  "snd (GetMetaValues mrs vmap) = (\<lambda>k. if k \<in> scalar_labels mrs then None else vmap k)"
proof (induction mrs vmap rule: GetMetaValues.induct)
  case (1 vmap)
  show ?case by simp
next
  case (2 mrs vmap)
  then show ?case by simp
next
  case (3 l d q mrs vmap)
  show ?case
    using "3.IH" [OF refl] unfolding GetMetaValues_scalar snd_conv
    by (auto simp: fun_eq_iff fun_upd_def)
next
  case (4 l d q mrs vmap)
  then show ?case by simp
next
  case (5 l d q ms mrs vmap)
  have a: "snd (GetMetaValues ms vmap) = (\<lambda>k. if k \<in> scalar_labels ms then None else vmap k)"
    using "5.IH"(1) .
  have b: "snd (GetMetaValues mrs (snd (GetMetaValues ms vmap))) =
      (\<lambda>k. if k \<in> scalar_labels mrs then None else snd (GetMetaValues ms vmap) k)"
    using "5.IH"(2) [OF refl prod.collapse refl] by simp
  have "snd (GetMetaValues (Meta l d q (ExchangeResource ms) # mrs) vmap) =
      (\<lambda>k. if k \<in> scalar_labels mrs then None else snd (GetMetaValues ms vmap) k)"
    unfolding GetMetaValues_nested snd_conv by (rule b)
  then show ?case
    by (auto simp: a fun_eq_iff)
qed

lemma GetMetaValues_options:
  "map field_value_of (fst (GetMetaValues (set_options d q mrs) vmap)) =
     map field_value_of (fst (GetMetaValues mrs vmap))
   \<and> snd (GetMetaValues (set_options d q mrs) vmap) = snd (GetMetaValues mrs vmap)"
proof (induction mrs vmap rule: GetMetaValues.induct)
  case (1 vmap)
  show ?case by simp
next
  case (2 mrs vmap)
  then show ?case by simp
next
  case (3 l d' q' mrs vmap)
  from "3.IH" [OF refl] show ?case
    unfolding set_options.simps GetMetaValues_scalar by (simp add: fun_upd_def)
next
  case (4 l d' q' mrs vmap)
  then show ?case by simp
next
  case (5 l d' q' ms mrs vmap)
  note a = "5.IH"(1)
  note b = "5.IH"(2) [OF refl prod.collapse refl]
  from a b show ?case
    unfolding set_options.simps GetMetaValues_nested by simp
qed


text \<open>
  C4: a descriptor without a nested schema yields a scalar, the row's entry for its
  label (the empty text when there is none), and the entry is removed before the
  remaining descriptors are read; a descriptor with a nested schema yields the values of
  that schema, read from the same mapping as consumed so far, and what the nested
  schema consumed is gone for the descriptors after it. After the traversal exactly the
  entries of the scalar labels are removed, so a second descriptor with the same label
  finds nothing. The schema \<open>[Name, Address[City]]\<close> on the row
  \<open>{Name: Ann, City: Oslo}\<close> gives \<open>{Name: Ann, Address: {City: Oslo}}\<close>.
\<close>

theorem GetMetaValues_field_mapper:
  "GetMetaValues (Meta l d q NilResource # mrs) vmap =
     (MetaValue l (Some (lookup vmap l)) (Meta l d q NilResource) []
        # fst (GetMetaValues mrs (vmap(l := None))),
      snd (GetMetaValues mrs (vmap(l := None))))
   \<and> GetMetaValues (Meta l d q (ExchangeResource ms) # mrs) vmap =
     (MetaValue l None (Meta l d q (ExchangeResource ms)) (fst (GetMetaValues ms vmap))
        # fst (GetMetaValues mrs (snd (GetMetaValues ms vmap))),
      snd (GetMetaValues mrs (snd (GetMetaValues ms vmap))))
   \<and> snd (GetMetaValues mrs vmap) = (\<lambda>k. if k \<in> scalar_labels mrs then None else vmap k)
   \<and> map field_value_of
        (fst (GetMetaValues [Meta l d q NilResource, Meta l d' q' NilResource] vmap)) =
       [(l, Scalar (lookup vmap l)), (l, Scalar [])]
   \<and> GetMetaValues [name_meta, address_meta] ann_row =
       ([MetaValue ''Name'' (Some ''Ann'') name_meta [],
         MetaValue ''Address'' None address_meta
           [MetaValue ''City'' (Some ''Oslo'') city_meta []]],
        Map.empty)
   \<and> map field_value_of (fst (GetMetaValues [name_meta, address_meta] ann_row)) =
       [(''Name'', Scalar ''Ann''), (''Address'', Nested [(''City'', Scalar ''Oslo'')])]"
proof -
  have ex: "GetMetaValues [name_meta, address_meta] ann_row =
       ([MetaValue ''Name'' (Some ''Ann'') name_meta [],
         MetaValue ''Address'' None address_meta
           [MetaValue ''City'' (Some ''Oslo'') city_meta []]],
        Map.empty)"
    by (simp add: name_meta_def address_meta_def city_meta_def ann_row_def lookup_def
        fun_eq_iff)
  have twice: "map field_value_of
        (fst (GetMetaValues [Meta l d q NilResource, Meta l d' q' NilResource] vmap)) =
       [(l, Scalar (lookup vmap l)), (l, Scalar [])]"
    by (simp add: lookup_def)
  show ?thesis
    unfolding ex twice
    using GetMetaValues_scalar [of l d q mrs vmap] GetMetaValues_nested [of l d q ms mrs vmap]
      GetMetaValues_consumes [of mrs vmap]
    by simp
qed

text \<open>
  C8, as stated, fails: for a descriptor with the delimiter \<open>,\<close> and the
  sequential-columns flag set, the cell \<open>a,b\<close> is stored whole as one scalar,
  and of two columns both headed \<open>Tags\<close> only the last cell is in the row mapping.
\<close>

theorem GetMetaValues_keeps_delimited_cell_counterexample:
  "map field_value_of (fst (GetMetaValues [tags_meta] [''Tags'' \<mapsto> ''a,b''])) =
     [(''Tags'', Scalar ''a,b'')]
   \<and> build_vmap [''Tags'', ''Tags''] 0 [''a'', ''b''] Map.empty = Inr [''Tags'' \<mapsto> ''b'']"
  by (simp add: tags_meta_def lookup_def)

text \<open>
  C8, as amended: the Field Value Set and the consumed mapping do not depend on the
  delimiter or the sequential-columns flag of any descriptor; a scalar descriptor
  stores the cell text as it is, and of a run of two same-named columns the row mapping
  holds the last cell only.
\<close>

theorem GetMetaValues_ignores_options:
  "map field_value_of (fst (GetMetaValues (set_options d q mrs) vmap)) =
     map field_value_of (fst (GetMetaValues mrs vmap))
   \<and> snd (GetMetaValues (set_options d q mrs) vmap) = snd (GetMetaValues mrs vmap)
   \<and> map field_value_of (fst (GetMetaValues [Meta l d q NilResource] vmap)) =
       [(l, Scalar (lookup vmap l))]
   \<and> build_vmap [h, h] 0 [a, b] Map.empty = Inr [h \<mapsto> b]"
  using GetMetaValues_options [of d q mrs vmap] by simp


section \<open>The row mapping and the header row\<close>

lemma build_vmap_panics:
  "j \<le> length headers \<Longrightarrow>
   build_vmap headers j cs vmap = Inl IndexOutOfRange \<longleftrightarrow> length headers < j + length cs"
  by (induction cs arbitrary: j vmap) auto

lemma build_vmap_ok:
  "j \<le> length headers \<Longrightarrow>
   (\<exists>m. build_vmap headers j cs vmap = Inr m) \<longleftrightarrow> j + length cs \<le> length headers"
  by (induction cs arbitrary: j vmap) auto

lemma row_task_eq:
  "build_vmap headers 0 r Map.empty = Inr vmap \<Longrightarrow>
   row_task c metas n headers r w =
     Inr (\<lparr>LineNum = 0, Sheet = n, MetaValues = fst (GetMetaValues metas vmap),
            Errors = fst (run_stages c (fst (GetMetaValues metas vmap)) w)\<rparr>,
          snd (run_stages c (fst (GetMetaValues metas vmap)) w))"
  by (simp add: row_task_def Let_def split_def)

lemma row_task_panic:
  "build_vmap headers 0 r Map.empty = Inl p \<Longrightarrow> row_task c metas n headers r w = Inl p"
  by (simp add: row_task_def)

text \<open>
  C10: building the row mapping reads \<open>headers[j]\<close> for every cell position
  \<open>j\<close> of the row. When the row has at most as many cells as the header row, no
  lookup is out of bounds and the row's task returns; when it has more, the lookup
  panics with an index out of range.
\<close>

theorem header_lookup_in_bounds:
  "(length r \<le> length headers \<longrightarrow>
      (\<exists>vmap. build_vmap headers 0 r Map.empty = Inr vmap)
      \<and> (\<exists>res. row_task c metas n headers r w = Inr res))
   \<and> (length headers < length r \<longrightarrow>
      build_vmap headers 0 r Map.empty = Inl IndexOutOfRange
      \<and> row_task c metas n headers r w = Inl IndexOutOfRange)"
proof (intro conjI impI)
  assume le: "length r \<le> length headers"
  then show ex: "\<exists>vmap. build_vmap headers 0 r Map.empty = Inr vmap"
    using build_vmap_ok [of 0 headers r Map.empty] by simp
  from ex obtain vmap where "build_vmap headers 0 r Map.empty = Inr vmap" ..
  from row_task_eq [OF this, of c metas n w]
  show "\<exists>res. row_task c metas n headers r w = Inr res"
    by (rule exI)
next
  assume "length headers < length r"
  then show p: "build_vmap headers 0 r Map.empty = Inl IndexOutOfRange"
    using build_vmap_panics [of 0 headers r Map.empty] by simp
  from row_task_panic [OF p]
  show "row_task c metas n headers r w = Inl IndexOutOfRange" .
qed

text \<open>
  C10 at a row of one cell under two headers, and at a row of two cells under one header.
\<close>

theorem header_lookup_in_bounds_witness:
  "(\<exists>vmap. build_vmap [''Name'', ''Age''] 0 [''Ann''] Map.empty = Inr vmap)
   \<and> (\<exists>res. row_task demo [name_meta] ''Sheet1'' [''Name'', ''Age''] [''Ann''] 5 = Inr res)
   \<and> build_vmap [''Name''] 0 [''Ann'', ''30''] Map.empty = Inl IndexOutOfRange
   \<and> row_task demo [name_meta] ''Sheet1'' [''Name''] [''Ann'', ''30''] 5 = Inl IndexOutOfRange"
  using header_lookup_in_bounds [of "[''Ann'']" "[''Name'', ''Age'']" demo "[name_meta]" "''Sheet1''" 5]
    header_lookup_in_bounds [of "[''Ann'', ''30'']" "[''Name'']" demo "[name_meta]" "''Sheet1''" 5]
  by simp

section \<open>The stages of one row\<close>

lemma run_stages_init_fails:
  "p_Initialize c (DecodeToResource c mvs w) = (Some e, w1) \<Longrightarrow>
   e \<noteq> ErrProcessorRecordNotFound \<Longrightarrow>
   run_stages c mvs w = ([e], [Initialize], w1)"
  by (simp add: run_stages_def)

lemma run_stages_init_passes:
  "p_Initialize c (DecodeToResource c mvs w) = (ie, w1) \<Longrightarrow>
   ie = None \<or> ie = Some ErrProcessorRecordNotFound \<Longrightarrow>
   run_stages c mvs w = stage_validate c [Initialize] w1"
  by (auto simp: run_stages_def)

lemma stage_validate_fails:
  "p_Validate c w = (errs, w') \<Longrightarrow> errs \<noteq> [] \<Longrightarrow>
   stage_validate c calls w = (errs, calls @ [Validate], w')"
  by (simp add: stage_validate_def)

lemma stage_validate_passes:
  "p_Validate c w = ([], w') \<Longrightarrow>
   stage_validate c calls w = stage_commit c (calls @ [Validate]) w'"
  by (simp add: stage_validate_def)

lemma stage_commit_fails:
  "p_Commit c w = (errs, w') \<Longrightarrow> errs \<noteq> [] \<Longrightarrow>
   stage_commit c calls w = (errs, calls @ [Commit], w')"
  by (simp add: stage_commit_def)

lemma stage_commit_passes:
  "p_Commit c w = ([], w') \<Longrightarrow>
   stage_commit c calls w = stage_save c (calls @ [Commit]) w'"
  by (simp add: stage_commit_def)

lemma stage_save_fails:
  "db_Save c w = (Some e, w') \<Longrightarrow> stage_save c calls w = ([e], calls @ [Save], w')"
  by (simp add: stage_save_def)

lemma stage_save_passes:
  "db_Save c w = (None, w') \<Longrightarrow> stage_save c calls w = ([], calls @ [Save], w')"
  by (simp add: stage_save_def)

text \<open>
  C5: a failure of a stage ends the row there. The errors of the failing stage, all
  of them, are the row's errors, the world is as that stage left it, and the log of
  calls ends with that stage: nothing after it is called. An initialization error
  other than record-not-found ends the row after \<open>Initialize\<close>; with no error or
  with record-not-found validation runs, and its errors end the row after
  \<open>Validate\<close>; then \<open>Commit\<close> and \<open>Save\<close> likewise. The errors are stored in
  the \<open>Errors\<close> of the row's status.
\<close>

theorem row_failure_ends_row:
  "(p_Initialize c (DecodeToResource c mvs w) = (Some e, w1)
      \<and> e \<noteq> ErrProcessorRecordNotFound
      \<longrightarrow> run_stages c mvs w = ([e], [Initialize], w1))
   \<and> (p_Initialize c (DecodeToResource c mvs w) = (ie, w1)
      \<and> (ie = None \<or> ie = Some ErrProcessorRecordNotFound)
      \<longrightarrow>
        (p_Validate c w1 = (ve, w2) \<and> ve \<noteq> []
           \<longrightarrow> run_stages c mvs w = (ve, [Initialize, Validate], w2))
        \<and> (p_Validate c w1 = ([], w2)
           \<longrightarrow>
             (p_Commit c w2 = (ce, w3) \<and> ce \<noteq> []
                \<longrightarrow> run_stages c mvs w = (ce, [Initialize, Validate, Commit], w3))
             \<and> (p_Commit c w2 = ([], w3)
                \<longrightarrow>
                  (db_Save c w3 = (Some se, w4)
                     \<longrightarrow> run_stages c mvs w =
                           ([se], [Initialize, Validate, Commit, Save], w4))
                  \<and> (db_Save c w3 = (None, w4)
                     \<longrightarrow> run_stages c mvs w =
                           ([], [Initialize, Validate, Commit, Save], w4)))))
   \<and> (build_vmap headers 0 r Map.empty = Inr vmap
      \<longrightarrow> row_task c metas n headers r w =
            Inr (\<lparr>LineNum = 0, Sheet = n, MetaValues = fst (GetMetaValues metas vmap),
                   Errors = fst (run_stages c (fst (GetMetaValues metas vmap)) w)\<rparr>,
                 snd (run_stages c (fst (GetMetaValues metas vmap)) w)))"
proof (intro conjI impI; (elim conjE)?)
  assume "p_Initialize c (DecodeToResource c mvs w) = (Some e, w1)"
    and "e \<noteq> ErrProcessorRecordNotFound"
  then show "run_stages c mvs w = ([e], [Initialize], w1)"
    by (rule run_stages_init_fails)
next
  assume i: "p_Initialize c (DecodeToResource c mvs w) = (ie, w1)"
    "ie = None \<or> ie = Some ErrProcessorRecordNotFound"
    and v: "p_Validate c w1 = (ve, w2)" "ve \<noteq> []"
  show "run_stages c mvs w = (ve, [Initialize, Validate], w2)"
    using run_stages_init_passes [OF i] stage_validate_fails [OF v] by simp
next
  assume i: "p_Initialize c (DecodeToResource c mvs w) = (ie, w1)"
    "ie = None \<or> ie = Some ErrProcessorRecordNotFound"
    and v: "p_Validate c w1 = ([], w2)"
    and k: "p_Commit c w2 = (ce, w3)" "ce \<noteq> []"
  show "run_stages c mvs w = (ce, [Initialize, Validate, Commit], w3)"
    using run_stages_init_passes [OF i] stage_validate_passes [OF v]
      stage_commit_fails [OF k]
    by simp
next
  assume i: "p_Initialize c (DecodeToResource c mvs w) = (ie, w1)"
    "ie = None \<or> ie = Some ErrProcessorRecordNotFound"
    and v: "p_Validate c w1 = ([], w2)"
    and k: "p_Commit c w2 = ([], w3)"
    and s: "db_Save c w3 = (Some se, w4)"
  show "run_stages c mvs w = ([se], [Initialize, Validate, Commit, Save], w4)"
    using run_stages_init_passes [OF i] stage_validate_passes [OF v]
      stage_commit_passes [OF k] stage_save_fails [OF s]
    by simp
next
  assume i: "p_Initialize c (DecodeToResource c mvs w) = (ie, w1)"
    "ie = None \<or> ie = Some ErrProcessorRecordNotFound"
    and v: "p_Validate c w1 = ([], w2)"
    and k: "p_Commit c w2 = ([], w3)"
    and s: "db_Save c w3 = (None, w4)"
  show "run_stages c mvs w = ([], [Initialize, Validate, Commit, Save], w4)"
    using run_stages_init_passes [OF i] stage_validate_passes [OF v]
      stage_commit_passes [OF k] stage_save_passes [OF s]
    by simp
next
  assume "build_vmap headers 0 r Map.empty = Inr vmap"
  then show "row_task c metas n headers r w =
            Inr (\<lparr>LineNum = 0, Sheet = n, MetaValues = fst (GetMetaValues metas vmap),
                   Errors = fst (run_stages c (fst (GetMetaValues metas vmap)) w)\<rparr>,
                 snd (run_stages c (fst (GetMetaValues metas vmap)) w))"
    by (rule row_task_eq)
qed

lemma demo_simps:
  "DecodeToResource demo mvs w = w"
  "p_Initialize demo w = (if w = 0 then Some (Err ''init'')
                           else if w = 4 then Some ErrProcessorRecordNotFound else None, w)"
  "p_Validate demo w = (if w = 1 then [Err ''blank'', Err ''short''] else [], w)"
  "p_Commit demo w = (if w = 2 then [Err ''commit''] else [], w)"
  "db_Begin demo w = w"
  "db_Save demo w = (if w = 3 then Some (Err ''save'') else None, w)"
  "db_Rollback demo w = (Some (Err ''rollback''), w)"
  "db_Commit demo w = (None, w)"
  by (simp_all add: demo_def)

text \<open>
  C5 on the example collaborator: a failure at each of the four stages, two validation
  errors kept, record-not-found passing through all stages, and the status of a row
  that fails validation.
\<close>

theorem row_failure_ends_row_witness:
  "run_stages demo [] 0 = ([Err ''init''], [Initialize], 0)
   \<and> run_stages demo [] 1 = ([Err ''blank'', Err ''short''], [Initialize, Validate], 1)
   \<and> run_stages demo [] 2 = ([Err ''commit''], [Initialize, Validate, Commit], 2)
   \<and> run_stages demo [] 3 = ([Err ''save''], [Initialize, Validate, Commit, Save], 3)
   \<and> run_stages demo [] 4 = ([], [Initialize, Validate, Commit, Save], 4)
   \<and> row_task demo [name_meta] ''Sheet1'' [''Name''] [''Ann''] 1 =
       Inr (\<lparr>LineNum = 0, Sheet = ''Sheet1'',
              MetaValues = [MetaValue ''Name'' (Some ''Ann'') name_meta []],
              Errors = [Err ''blank'', Err ''short'']\<rparr>,
            [Initialize, Validate], 1)"
proof -
  note t = row_failure_ends_row [where c = demo and mvs = "[]" and headers = "[''Name'']"
      and r = "[''Ann'']" and vmap = "[''Name'' \<mapsto> ''Ann'']" and metas = "[name_meta]"
      and n = "''Sheet1''"]
  have a: "run_stages demo [] 0 = ([Err ''init''], [Initialize], 0)"
    using t [where w = 0 and e = "Err ''init''" and ?w1.0 = 0]
    by (simp add: demo_simps)
  have b: "run_stages demo [] 1 = ([Err ''blank'', Err ''short''], [Initialize, Validate], 1)"
    using t [where w = 1 and ie = None and ?w1.0 = 1 and ?w2.0 = 1
        and ve = "[Err ''blank'', Err ''short'']"]
    by (simp add: demo_simps)
  have c: "run_stages demo [] 2 = ([Err ''commit''], [Initialize, Validate, Commit], 2)"
    using t [where w = 2 and ie = None and ?w1.0 = 2 and ?w2.0 = 2 and ?w3.0 = 2
        and ce = "[Err ''commit'']"]
    by (simp add: demo_simps)
  have d: "run_stages demo [] 3 = ([Err ''save''], [Initialize, Validate, Commit, Save], 3)"
    using t [where w = 3 and ie = None and ?w1.0 = 3 and ?w2.0 = 3 and ?w3.0 = 3
        and ?w4.0 = 3 and se = "Err ''save''"]
    by (simp add: demo_simps)
  have e: "run_stages demo [] 4 = ([], [Initialize, Validate, Commit, Save], 4)"
    using t [where w = 4 and ie = "Some ErrProcessorRecordNotFound" and ?w1.0 = 4
        and ?w2.0 = 4 and ?w3.0 = 4 and ?w4.0 = 4]
    by (simp add: demo_simps)
  have f: "row_task demo [name_meta] ''Sheet1'' [''Name''] [''Ann''] 1 =
       Inr (\<lparr>LineNum = 0, Sheet = ''Sheet1'',
              MetaValues = [MetaValue ''Name'' (Some ''Ann'') name_meta []],
              Errors = [Err ''blank'', Err ''short'']\<rparr>,
            [Initialize, Validate], 1)"
    using row_failure_ends_row [where c = demo and headers = "[''Name'']"
        and mvs = "[MetaValue ''Name'' (Some ''Ann'') name_meta []]"
        and r = "[''Ann'']" and vmap = "[''Name'' \<mapsto> ''Ann'']" and metas = "[name_meta]"
        and n = "''Sheet1''" and w = 1 and ie = None and ?w1.0 = 1 and ?w2.0 = 1
        and ve = "[Err ''blank'', Err ''short'']"]
    by (simp add: demo_simps name_meta_def lookup_def)
  from a b c d e f show ?thesis by blast
qed

section \<open>Commit or rollback: the signals\<close>

lemma conclude_cases:
  "fst (conclude c h w) =
     (if h then (case fst (db_Rollback c w) of
                   Some err \<Rightarrow> [Error err, Error job_error]
                 | None \<Rightarrow> [Error job_error])
      else (case fst (db_Commit c w) of
              Some err \<Rightarrow> [Error err]
            | None \<Rightarrow> [Done True]))"
  by (simp add: conclude_def split: prod.splits option.splits)

lemma conclude_counts:
  "length (filter is_Done (fst (conclude c h w))) \<le> 1
   \<and> (filter is_Done (fst (conclude c h w)) = []) = (filter is_Error (fst (conclude c h w)) \<noteq> [])
   \<and> length (filter is_Done (fst (conclude c h w))) =
       (if \<not> h \<and> fst (db_Commit c w) = None then 1 else 0)
   \<and> length (filter is_Error (fst (conclude c h w))) =
       (if h then (if fst (db_Rollback c w) = None then 1 else 2)
        else (if fst (db_Commit c w) = None then 0 else 1))
   \<and> (if h then last (fst (conclude c h w)) = Error job_error
       else fst (conclude c h w) =
            (case fst (db_Commit c w) of Some err \<Rightarrow> [Error err] | None \<Rightarrow> [Done True]))"
  unfolding conclude_cases by (simp split: option.splits)

section \<open>Import and its temporary file\<close>

lemma Import_removes_after_copy:
  "TempFile io = Inr name \<Longrightarrow> Copy io = None \<Longrightarrow> name \<notin> temp_files (snd (Import io s))"
  by (simp add: Import_def Let_def f_Close_def os_Remove_def split: option.splits sum.splits)

lemma Import_closes:
  "TempFile io = Inr name \<Longrightarrow> name \<notin> open_handles (snd (Import io s))"
  by (simp add: Import_def Let_def f_Close_def os_Remove_def split: option.splits sum.splits)

lemma Import_copy_failure:
  "TempFile io = Inr name \<Longrightarrow> Copy io = Some err \<Longrightarrow>
   Import io s = (Inl err, \<lparr>temp_files = insert name (temp_files s),
                            open_handles = open_handles s - {name}\<rparr>)"
  by (simp add: Import_def Let_def f_Close_def)

text \<open>
  C6 fails when copying the stream fails: the return at line 82 comes before the
  removal is deferred at line 84, so only the deferred \<open>Close\<close> runs and the
  temporary file stays on disk. (By \<open>Import_removes_after_copy\<close> every return
  after a successful copy removes it.)
\<close>

theorem Import_copy_failure_leaves_temp_file:
  "Import failing_copy empty_fs =
     (Inl (Err ''unexpected EOF''),
      \<lparr>temp_files = {''qor.exchange.1''}, open_handles = {}\<rparr>)"
  by (simp add: Import_def failing_copy_def empty_fs_def f_Close_def)

section \<open>Counting goroutines\<close>

lemma filter_update_count:
  "k < length xs \<Longrightarrow>
   length (filter P (xs[k := y])) + (if P (xs ! k) then 1 else 0) =
   length (filter P xs) + (if P y then 1 else 0)"
proof -
  assume k: "k < length xs"
  have a: "xs = take k xs @ xs ! k # drop (Suc k) xs"
    using k by (rule id_take_nth_drop)
  have b: "xs[k := y] = take k xs @ y # drop (Suc k) xs"
    using k by (rule upd_conv_take_nth_drop)
  have "length (filter P xs) =
      length (filter P (take k xs)) + (if P (xs ! k) then 1 else 0)
        + length (filter P (drop (Suc k) xs))"
    by (subst a) simp
  moreover have "length (filter P (xs[k := y])) =
      length (filter P (take k xs)) + (if P y then 1 else 0)
        + length (filter P (drop (Suc k) xs))"
    by (subst b) simp
  ultimately show ?thesis by simp
qed

lemma filter_remove_count:
  "k < length xs \<Longrightarrow>
   length (filter P (take k xs @ drop (Suc k) xs)) + (if P (xs ! k) then 1 else 0) =
   length (filter P xs)"
proof -
  assume k: "k < length xs"
  have a: "xs = take k xs @ xs ! k # drop (Suc k) xs"
    using k by (rule id_take_nth_drop)
  have "length (filter P xs) =
      length (filter P (take k xs)) + (if P (xs ! k) then 1 else 0)
        + length (filter P (drop (Suc k) xs))"
    by (subst a) simp
  then show ?thesis by simp
qed

lemma filter_update_same:
  "k < length xs \<Longrightarrow> P y = P (xs ! k) \<Longrightarrow>
   length (filter P (xs[k := y])) = length (filter P xs)"
  using filter_update_count [of k xs P y] by simp

lemma filter_update_drop:
  "k < length xs \<Longrightarrow> P (xs ! k) \<Longrightarrow> \<not> P y \<Longrightarrow>
   Suc (length (filter P (xs[k := y]))) = length (filter P xs)"
  using filter_update_count [of k xs P y] by simp

lemma filter_remove_same:
  "k < length xs \<Longrightarrow> \<not> P (xs ! k) \<Longrightarrow>
   length (filter P (take k xs @ drop (Suc k) xs)) = length (filter P xs)"
  using filter_remove_count [of k xs P] by simp

section \<open>The shape of a step\<close>

lemma worker_step_Body:
  "w_place wk = Body \<Longrightarrow> worker_step c metas k wk s = Some s' \<Longrightarrow>
   \<exists>ii p w'. s' = s\<lparr>workers := (workers s)[k := wk\<lparr>w_place := SetFlag, w_ii := ii,
                       w_panic := p\<rparr>], world := w'\<rparr>"
proof -
  assume b: "w_place wk = Body" and st: "worker_step c metas k wk s = Some s'"
  show ?thesis
  proof (cases "row_task c metas (Name (sheet_var s)) (w_headers wk) (w_row wk) (world s)")
    case (Inl p)
    with b st have "s' = s\<lparr>workers := (workers s)[k := wk\<lparr>w_place := SetFlag,
        w_ii := \<lparr>LineNum = 0, Sheet = Name (sheet_var s), MetaValues = [], Errors = []\<rparr>,
        w_panic := Some p\<rparr>]\<rparr>"
      by (simp add: worker_step_def)
    then have "s' = s\<lparr>workers := (workers s)[k := wk\<lparr>w_place := SetFlag,
        w_ii := \<lparr>LineNum = 0, Sheet = Name (sheet_var s), MetaValues = [], Errors = []\<rparr>,
        w_panic := Some p\<rparr>], world := world s\<rparr>"
      by simp
    then show ?thesis by blast
  next
    case (Inr res)
    obtain ii calls w' where "res = (ii, calls, w')" by (cases res) auto
    with Inr b st have "s' = s\<lparr>workers := (workers s)[k := wk\<lparr>w_place := SetFlag,
        w_ii := ii, w_panic := w_panic wk\<rparr>], world := w'\<rparr>"
      by (simp add: worker_step_def)
    then show ?thesis by blast
  qed
qed

lemma worker_step_SetFlag:
  "w_place wk = SetFlag \<Longrightarrow> worker_step c metas k wk s = Some s' \<Longrightarrow>
   s' = s\<lparr>hasError := (Errors (w_ii wk) \<noteq> []),
          workers := (workers s)[k := wk\<lparr>w_place := Emit\<rparr>]\<rparr>"
  by (simp add: worker_step_def)

lemma worker_step_Emit:
  "w_place wk = Emit \<Longrightarrow> worker_step c metas k wk s = Some s' \<Longrightarrow>
   length (iic s) < 10 \<and>
   s' = s\<lparr>iic := iic s @ [w_ii wk], workers := (workers s)[k := wk\<lparr>w_place := Release\<rparr>]\<rparr>"
  by (simp add: worker_step_def split: if_splits)

lemma worker_step_Release:
  "w_place wk = Release \<Longrightarrow> worker_step c metas k wk s = Some s' \<Longrightarrow>
   (0 < throttle s \<or> closed s) \<and>
   s' = s\<lparr>throttle := throttle s - 1,
          workers := (workers s)[k := wk\<lparr>w_place := WaitDone\<rparr>]\<rparr>"
  by (auto simp: worker_step_def split: if_splits)

lemma worker_step_WaitDone:
  "w_place wk = WaitDone \<Longrightarrow> worker_step c metas k wk s = Some s' \<Longrightarrow>
   (wait s < 1 \<and> s' = s\<lparr>crashed := Some NegativeWaitGroupCounter\<rparr>) \<or>
   (1 \<le> wait s \<and>
    s' = s\<lparr>wait := wait s - 1, workers := take k (workers s) @ drop (Suc k) (workers s),
           crashed := w_panic wk\<rparr>)"
  by (auto simp: worker_step_def split: if_splits)

section \<open>The slots of the channel throttle\<close>

lemma holds_slot_new_worker: "holds_slot (new_worker i r hs)"
  by (simp add: holds_slot_def new_worker_def)

lemma main_step_slots:
  "main_step c (pc s) s = Some s' \<Longrightarrow> slots_ok s \<Longrightarrow> slots_ok s'"
  by (cases "(c, pc s, s)" rule: main_step.cases)
    (auto simp: slots_ok_def in_flight_def holds_slot_new_worker split: if_splits prod.splits)

lemma worker_step_slots:
  assumes k: "k < length (workers s)"
    and st: "worker_step c metas k (workers s ! k) s = Some s'"
    and ok: "slots_ok s"
  shows "slots_ok s'"
proof -
  let ?wk = "workers s ! k"
  note same = filter_update_same [OF k, of holds_slot]
  note drop = filter_update_drop [OF k, of holds_slot]
  note rem = filter_remove_same [OF k, of holds_slot]
  show ?thesis
  proof (cases "w_place ?wk")
    case Body
    from worker_step_Body [OF Body st] obtain ii p w' where
      s': "s' = s\<lparr>workers := (workers s)[k := ?wk\<lparr>w_place := SetFlag, w_ii := ii,
                       w_panic := p\<rparr>], world := w'\<rparr>"
      by blast
    have "in_flight s' = in_flight s"
      unfolding s' in_flight_def using Body by (simp add: same holds_slot_def)
    with ok show ?thesis by (simp add: slots_ok_def s')
  next
    case SetFlag
    note s' = worker_step_SetFlag [OF SetFlag st]
    have "in_flight s' = in_flight s"
      unfolding s' in_flight_def using SetFlag by (simp add: same holds_slot_def)
    with ok show ?thesis by (simp add: slots_ok_def s')
  next
    case Emit
    from worker_step_Emit [OF Emit st] have
      s': "s' = s\<lparr>iic := iic s @ [w_ii ?wk],
                   workers := (workers s)[k := ?wk\<lparr>w_place := Release\<rparr>]\<rparr>"
      by simp
    have "in_flight s' = in_flight s"
      unfolding s' in_flight_def using Emit by (simp add: same holds_slot_def)
    with ok show ?thesis by (simp add: slots_ok_def s')
  next
    case Release
    from worker_step_Release [OF Release st] have
      s': "s' = s\<lparr>throttle := throttle s - 1,
                   workers := (workers s)[k := ?wk\<lparr>w_place := WaitDone\<rparr>]\<rparr>"
      by simp
    have "Suc (in_flight s') = in_flight s"
      unfolding s' in_flight_def using Release by (simp add: drop holds_slot_def)
    moreover have "throttle s' = throttle s - 1" "pc s' = pc s"
      by (simp_all add: s')
    ultimately show ?thesis
      using ok unfolding slots_ok_def by auto
  next
    case WaitDone
    have r: "length (filter holds_slot (take k (workers s) @ drop (Suc k) (workers s))) =
        in_flight s"
      unfolding in_flight_def using WaitDone by (intro rem) (simp add: holds_slot_def)
    from worker_step_WaitDone [OF WaitDone st] have
      "in_flight s' = in_flight s \<and> throttle s' = throttle s \<and> pc s' = pc s"
    proof (elim disjE conjE)
      assume "s' = s\<lparr>crashed := Some NegativeWaitGroupCounter\<rparr>"
      then show ?thesis by (simp add: in_flight_def)
    next
      assume e: "s' = s\<lparr>wait := wait s - 1,
          workers := take k (workers s) @ drop (Suc k) (workers s),
          crashed := w_panic ?wk\<rparr>"
      have "in_flight s' = in_flight s"
        using r unfolding e by (simp add: in_flight_def)
      then show ?thesis by (simp add: e)
    qed
    with ok show ?thesis by (simp add: slots_ok_def)
  qed
qed

lemma caller_step_slots: "caller_step s = Some s' \<Longrightarrow> slots_ok s \<Longrightarrow> slots_ok s'"
  by (auto simp: caller_step_def slots_ok_def in_flight_def split: list.splits)

lemma step_slots: "step c metas s s' \<Longrightarrow> slots_ok s \<Longrightarrow> slots_ok s'"
  by (induction rule: step.induct)
    (blast intro: main_step_slots worker_step_slots caller_step_slots)+

lemma init_slots: "slots_ok (process_init c n xf w)"
  by (simp add: slots_ok_def process_init_def in_flight_def)

lemma reach_slots: "reach c metas (process_init c n xf w) s \<Longrightarrow> slots_ok s"
  by (induction rule: reach.induct) (auto intro: init_slots step_slots)


section \<open>The schedule is a run of the job\<close>

lemma schedule_step: "schedule c metas s = Some s' \<Longrightarrow> step c metas s s'"
proof -
  assume a: "schedule c metas s = Some s'"
  then have cr: "crashed s = None"
    by (auto simp: schedule_def split: if_splits)
  show ?thesis
  proof (cases "main_step c (pc s) s")
    case (Some m)
    with a cr have "main_step c (pc s) s = Some s'" by (simp add: schedule_def)
    with cr show ?thesis by (rule step.main)
  next
    case None
    note m = None
    show ?thesis
    proof (cases "workers s")
      case Nil
      with a cr m have "caller_step s = Some s'" by (simp add: schedule_def)
      with cr show ?thesis by (rule step.caller)
    next
      case (Cons wk wks)
      show ?thesis
      proof (cases "worker_step c metas 0 wk s")
        case None
        with a cr m Cons have "caller_step s = Some s'" by (simp add: schedule_def)
        with cr show ?thesis by (rule step.caller)
      next
        case (Some y)
        with a cr m Cons have "worker_step c metas 0 (workers s ! 0) s = Some s'"
          by (simp add: schedule_def)
        moreover have "0 < length (workers s)" using Cons by simp
        ultimately show ?thesis using cr by (intro step.worker)
      qed
    qed
  qed
qed

lemma reach_trans_step:
  "reach c metas s1 s2 \<Longrightarrow> step c metas s0 s1 \<Longrightarrow> reach c metas s0 s2"
  by (induction rule: reach.induct) (blast intro: reach.intros)+

lemma reach_run: "reach c metas s (run c metas n s)"
proof (induction n arbitrary: s)
  case 0
  show ?case by (simp add: reach.init)
next
  case (Suc n)
  show ?case
  proof (cases "schedule c metas s")
    case None
    then show ?thesis by (simp add: reach.init)
  next
    case (Some s')
    from Suc [of s'] schedule_step [OF Some] have "reach c metas s (run c metas n s')"
      by (rule reach_trans_step)
    with Some show ?thesis by simp
  qed
qed

section \<open>Statuses and submitted rows\<close>

lemma not_emitted_new_worker: "not_emitted (new_worker i r hs)"
  by (simp add: not_emitted_def new_worker_def)

lemma main_step_count:
  "main_step c (pc s) s = Some s' \<Longrightarrow> count_ok s \<Longrightarrow> count_ok s'"
  by (cases "(c, pc s, s)" rule: main_step.cases)
    (auto simp: count_ok_def emitted_def not_emitted_new_worker split: if_splits prod.splits)

lemma worker_step_count:
  assumes k: "k < length (workers s)"
    and st: "worker_step c metas k (workers s ! k) s = Some s'"
    and ok: "count_ok s"
  shows "count_ok s'"
proof -
  let ?wk = "workers s ! k"
  note same = filter_update_same [OF k, of not_emitted]
  note drop = filter_update_drop [OF k, of not_emitted]
  note rem = filter_remove_same [OF k, of not_emitted]
  show ?thesis
  proof (cases "w_place ?wk")
    case Body
    from worker_step_Body [OF Body st] obtain ii p w' where
      s': "s' = s\<lparr>workers := (workers s)[k := ?wk\<lparr>w_place := SetFlag, w_ii := ii,
                       w_panic := p\<rparr>], world := w'\<rparr>"
      by blast
    have "length (filter not_emitted (workers s')) = length (filter not_emitted (workers s))"
      unfolding s' using Body by (simp add: same not_emitted_def)
    with ok show ?thesis by (simp add: count_ok_def emitted_def s')
  next
    case SetFlag
    note s' = worker_step_SetFlag [OF SetFlag st]
    have "length (filter not_emitted (workers s')) = length (filter not_emitted (workers s))"
      unfolding s' using SetFlag by (simp add: same not_emitted_def)
    with ok show ?thesis by (simp add: count_ok_def emitted_def s')
  next
    case Emit
    from worker_step_Emit [OF Emit st] have
      s': "s' = s\<lparr>iic := iic s @ [w_ii ?wk],
                   workers := (workers s)[k := ?wk\<lparr>w_place := Release\<rparr>]\<rparr>"
      by simp
    have "Suc (length (filter not_emitted (workers s'))) =
        length (filter not_emitted (workers s))"
      unfolding s' using Emit by (simp add: drop not_emitted_def)
    moreover have "length (emitted s') = Suc (length (emitted s))"
      by (simp add: s' emitted_def)
    moreover have "submitted s' = submitted s" by (simp add: s')
    ultimately show ?thesis using ok unfolding count_ok_def by linarith
  next
    case Release
    from worker_step_Release [OF Release st] have
      s': "s' = s\<lparr>throttle := throttle s - 1,
                   workers := (workers s)[k := ?wk\<lparr>w_place := WaitDone\<rparr>]\<rparr>"
      by simp
    have "length (filter not_emitted (workers s')) = length (filter not_emitted (workers s))"
      unfolding s' using Release by (simp add: same not_emitted_def)
    with ok show ?thesis by (simp add: count_ok_def emitted_def s')
  next
    case WaitDone
    have r: "length (filter not_emitted (take k (workers s) @ drop (Suc k) (workers s))) =
        length (filter not_emitted (workers s))"
      using WaitDone by (intro rem) (simp add: not_emitted_def)
    from worker_step_WaitDone [OF WaitDone st] show ?thesis
    proof (elim disjE conjE)
      assume "s' = s\<lparr>crashed := Some NegativeWaitGroupCounter\<rparr>"
      with ok show ?thesis by (simp add: count_ok_def emitted_def)
    next
      assume e: "s' = s\<lparr>wait := wait s - 1,
          workers := take k (workers s) @ drop (Suc k) (workers s),
          crashed := w_panic ?wk\<rparr>"
      have "length (filter not_emitted (workers s')) =
          length (filter not_emitted (workers s))"
        using r unfolding e by simp
      with ok show ?thesis by (simp add: count_ok_def emitted_def e)
    qed
  qed
qed

lemma caller_step_emitted: "caller_step s = Some s' \<Longrightarrow> emitted s' = emitted s"
  by (auto simp: caller_step_def emitted_def split: list.splits)

lemma caller_step_frame:
  "caller_step s = Some s' \<Longrightarrow>
   workers s' = workers s \<and> submitted s' = submitted s \<and> pc s' = pc s
   \<and> hasError s' = hasError s"
  by (auto simp: caller_step_def split: list.splits)

lemma caller_step_count: "caller_step s = Some s' \<Longrightarrow> count_ok s \<Longrightarrow> count_ok s'"
  using caller_step_emitted [of s s'] caller_step_frame [of s s']
  by (simp add: count_ok_def)

lemma step_count: "step c metas s s' \<Longrightarrow> count_ok s \<Longrightarrow> count_ok s'"
  by (induction rule: step.induct)
    (blast intro: main_step_count worker_step_count caller_step_count)+

lemma init_count: "count_ok (process_init c n xf w)"
  by (simp add: count_ok_def process_init_def emitted_def)

lemma reach_count: "reach c metas (process_init c n xf w) s \<Longrightarrow> count_ok s"
  by (induction rule: reach.induct) (auto intro: init_count step_count)


section \<open>All rows are submitted unless a failure was seen\<close>

lemma list_ex_nth_split:
  "k < length xs \<Longrightarrow>
   list_ex Q xs = (Q (xs ! k) \<or> list_ex Q (take k xs @ drop (Suc k) xs))"
proof -
  assume k: "k < length xs"
  have "list_ex Q xs = list_ex Q (take k xs @ xs ! k # drop (Suc k) xs)"
    using id_take_nth_drop [OF k] by simp
  then show ?thesis by auto
qed

lemma list_ex_update_split:
  "k < length xs \<Longrightarrow>
   list_ex Q (xs[k := y]) = (Q y \<or> list_ex Q (take k xs @ drop (Suc k) xs))"
proof -
  assume k: "k < length xs"
  have "list_ex Q (xs[k := y]) = list_ex Q (take k xs @ y # drop (Suc k) xs)"
    using upd_conv_take_nth_drop [OF k] by simp
  then show ?thesis by auto
qed

lemma worker_step_frame:
  "worker_step c metas k wk s = Some s' \<Longrightarrow> pc s' = pc s \<and> submitted s' = submitted s"
  by (cases "w_place wk")
    (auto simp: worker_step_def split: sum.splits prod.splits if_splits)

lemma worker_step_failure_seen:
  assumes k: "k < length (workers s)"
    and st: "worker_step c metas k (workers s ! k) s = Some s'"
  shows "failure_seen s' =
           (failure_seen s \<or> (w_place (workers s ! k) = SetFlag
              \<and> Errors (w_ii (workers s ! k)) \<noteq> []))
         \<and> hasError s' =
           (if w_place (workers s ! k) = SetFlag then Errors (w_ii (workers s ! k)) \<noteq> []
            else hasError s)"
proof -
  let ?wk = "workers s ! k"
  let ?F = "\<lambda>wk. w_place wk = Emit \<and> Errors (w_ii wk) \<noteq> []"
  let ?rest = "take k (workers s) @ drop (Suc k) (workers s)"
  note old = list_ex_nth_split [OF k, of ?F]
  note new = list_ex_update_split [OF k, of ?F]
  show ?thesis
  proof (cases "w_place ?wk")
    case Body
    from worker_step_Body [OF Body st] obtain ii p w' where
      s': "s' = s\<lparr>workers := (workers s)[k := ?wk\<lparr>w_place := SetFlag, w_ii := ii,
                       w_panic := p\<rparr>], world := w'\<rparr>"
      by blast
    have "list_ex ?F (workers s') = list_ex ?F (workers s)"
      unfolding s' using Body by (simp add: old new)
    then show ?thesis using Body by (simp add: failure_seen_def emitted_def s')
  next
    case SetFlag
    note s' = worker_step_SetFlag [OF SetFlag st]
    have "list_ex ?F (workers s') = (Errors (w_ii ?wk) \<noteq> [] \<or> list_ex ?F (workers s))"
      unfolding s' using SetFlag by (simp add: old new)
    then show ?thesis using SetFlag by (auto simp: failure_seen_def emitted_def s')
  next
    case Emit
    from worker_step_Emit [OF Emit st] have
      s': "s' = s\<lparr>iic := iic s @ [w_ii ?wk],
                   workers := (workers s)[k := ?wk\<lparr>w_place := Release\<rparr>]\<rparr>"
      by simp
    have "list_ex ?F (workers s') = list_ex ?F ?rest"
      unfolding s' by (simp add: new)
    moreover have "list_ex ?F (workers s) = (Errors (w_ii ?wk) \<noteq> [] \<or> list_ex ?F ?rest)"
      using Emit by (simp add: old)
    ultimately show ?thesis using Emit by (auto simp: failure_seen_def emitted_def s')
  next
    case Release
    from worker_step_Release [OF Release st] have
      s': "s' = s\<lparr>throttle := throttle s - 1,
                   workers := (workers s)[k := ?wk\<lparr>w_place := WaitDone\<rparr>]\<rparr>"
      by simp
    have "list_ex ?F (workers s') = list_ex ?F (workers s)"
      unfolding s' using Release by (simp add: old new)
    then show ?thesis using Release by (simp add: failure_seen_def emitted_def s')
  next
    case WaitDone
    have r: "list_ex ?F ?rest = list_ex ?F (workers s)"
      using WaitDone by (simp add: old)
    from worker_step_WaitDone [OF WaitDone st] show ?thesis
    proof (elim disjE conjE)
      assume "s' = s\<lparr>crashed := Some NegativeWaitGroupCounter\<rparr>"
      then show ?thesis using WaitDone by (simp add: failure_seen_def emitted_def)
    next
      assume e: "s' = s\<lparr>wait := wait s - 1,
          workers := take k (workers s) @ drop (Suc k) (workers s),
          crashed := w_panic ?wk\<rparr>"
      have "list_ex ?F (workers s') = list_ex ?F (workers s)"
        using r unfolding e by simp
      then show ?thesis using WaitDone by (simp add: failure_seen_def emitted_def e)
    qed
  qed
qed

lemma worker_step_loop:
  assumes k: "k < length (workers s)"
    and st: "worker_step c metas k (workers s ! k) s = Some s'"
    and ok: "loop_ok d s"
  shows "loop_ok d s'"
  using worker_step_failure_seen [OF k st] worker_step_frame [OF st] ok
  by (auto simp: loop_ok_def)

lemma failure_seen_frame [simp]:
  "failure_seen (s\<lparr>pc := p\<rparr>) = failure_seen s"
  "failure_seen (s\<lparr>sheet_var := sh\<rparr>) = failure_seen s"
  "failure_seen (s\<lparr>throttle := t\<rparr>) = failure_seen s"
  "failure_seen (s\<lparr>world := w'\<rparr>) = failure_seen s"
  "failure_seen (s\<lparr>signals := sgs\<rparr>) = failure_seen s"
  "failure_seen (s\<lparr>closed := b\<rparr>) = failure_seen s"
  "failure_seen (s\<lparr>submitted := n\<rparr>) = failure_seen s"
  "failure_seen (s\<lparr>decided := dec\<rparr>) = failure_seen s"
  "failure_seen (s\<lparr>workers := workers s @ [new_worker i r hs]\<rparr>) = failure_seen s"
  by (simp_all add: failure_seen_def emitted_def new_worker_def)

lemma main_step_loop:
  "main_step c (pc s) s = Some s' \<Longrightarrow> loop_ok d s \<Longrightarrow> loop_ok d s'"
  by (cases "(c, pc s, s)" rule: main_step.cases)
    (auto simp: loop_ok_def split: if_splits prod.splits)

lemma caller_step_loop: "caller_step s = Some s' \<Longrightarrow> loop_ok d s \<Longrightarrow> loop_ok d s'"
  using caller_step_emitted [of s s'] caller_step_frame [of s s']
  by (simp add: loop_ok_def failure_seen_def)

lemma step_loop: "step c metas s s' \<Longrightarrow> loop_ok d s \<Longrightarrow> loop_ok d s'"
  by (induction rule: step.induct)
    (blast intro: main_step_loop worker_step_loop caller_step_loop)+

lemma init_loop: "loop_ok (data_rows xf) (process_init c n xf w)"
  by (simp add: loop_ok_def process_init_def failure_seen_def emitted_def)

lemma reach_loop: "reach c metas (process_init c n xf w) s \<Longrightarrow> loop_ok (data_rows xf) s"
  by (induction rule: reach.induct) (auto intro: init_loop step_loop)


section \<open>Rows visited and the total of the preprocessor\<close>

lemma data_rows_sheets:
  "int (data_rows ys) + int (length (filter (\<lambda>sh. Rows sh \<noteq> []) ys)) =
   (\<Sum>sh\<leftarrow>ys. int (length (Rows sh)))"
proof (induction ys)
  case Nil
  show ?case by simp
next
  case (Cons sh ys)
  show ?case
  proof (cases "Rows sh")
    case Nil
    with Cons show ?thesis by simp
  next
    case (Cons r rs)
    with Cons.IH show ?thesis by simp
  qed
qed

lemma rows_positive_sheet:
  "0 < (\<Sum>sh\<leftarrow>ys. int (length (Rows sh))) \<Longrightarrow>
   0 < length (filter (\<lambda>sh. Rows sh \<noteq> []) ys)"
  by (induction ys) (auto split: if_splits)

lemma data_rows_total:
  "int (data_rows (snd (preprocessXLSXFile xf)))
     + int (length (filter (\<lambda>sh. Rows sh \<noteq> []) (snd (preprocessXLSXFile xf)))) =
   fst (preprocessXLSXFile xf)"
  using data_rows_sheets [of "snd (preprocessXLSXFile xf)"] total_is_sum_of_rows [of xf]
  by simp

lemma total_positive_sheet:
  "0 < fst (preprocessXLSXFile xf) \<Longrightarrow>
   0 < length (filter (\<lambda>sh. Rows sh \<noteq> []) (snd (preprocessXLSXFile xf)))"
  using rows_positive_sheet [of "snd (preprocessXLSXFile xf)"] total_is_sum_of_rows [of xf]
  by simp

lemma one_row_final_eq:
  "one_row_final =
     \<lparr>pc = Returned,
      sheet_var = \<lparr>Name = ''People'', Rows = [[''Name''], [''Ann'']], MaxRow = 2\<rparr>,
      workers = [], throttle = 0, closed = True, hasError = False, wait = 0,
      iic = [],
      received =
        [\<lparr>LineNum = 0, Sheet = ''People'',
           MetaValues = [MetaValue ''Name'' (Some ''Ann'') name_meta []],
           Errors = []\<rparr>],
      signals = [Done True], world = 5, submitted = 1, decided = Some (False, 5),
      crashed = None\<rparr>"
  by code_simp

lemma one_row_total: "preprocessXLSXFile one_row_file = (2, one_row_file)"
  by (simp add: preprocessXLSXFile_def one_row_file_def)

lemma one_row_sheets: "length (filter (\<lambda>sh. Rows sh \<noteq> []) one_row_file) = 1"
  by (simp add: one_row_file_def)

lemma one_row_reach:
  "reach demo [name_meta] (import_job demo one_row_file 5) one_row_final"
  unfolding one_row_final_def by (rule reach_run)

lemma many_rows_blocked_eval:
  "pc many_rows_blocked = Send [''Name''] 20 [[''Ann'']] []
   \<and> in_flight many_rows_blocked = 20"
  by code_simp

lemma many_rows_reach:
  "reach demo [name_meta]
     (process_init demo (fst (preprocessXLSXFile many_rows_file))
        (snd (preprocessXLSXFile many_rows_file)) 5)
     many_rows_blocked"
  unfolding many_rows_blocked_def import_job_def by (rule reach_run)

text \<open>
  C1, as amended: in every state of an import job, the number of statuses sent on the
  status channel is at most the number of rows submitted, and equal to it when no
  submitted row has its status still to send. The number of rows submitted is at most
  \<open>TotalLines\<close> minus the number of sheets that keep a row (the first row of a
  sheet is its header: it is counted in \<open>TotalLines\<close> and never submitted), so the
  number of statuses is below \<open>TotalLines\<close> whenever \<open>TotalLines\<close> is positive.
  When the loop is over, every goroutine has returned and no status sent carries an
  error, the number of statuses is exactly \<open>TotalLines\<close> minus that number of sheets.
\<close>

theorem statuses_and_total_lines:
  assumes "reach c metas (import_job c xf w) s"
  shows "length (emitted s) \<le> submitted s
    \<and> (filter not_emitted (workers s) = [] \<longrightarrow> length (emitted s) = submitted s)
    \<and> int (submitted s) \<le>
        fst (preprocessXLSXFile xf)
          - int (length (filter (\<lambda>sh. Rows sh \<noteq> []) (snd (preprocessXLSXFile xf))))
    \<and> (0 < fst (preprocessXLSXFile xf) \<longrightarrow>
          int (length (emitted s)) < fst (preprocessXLSXFile xf))
    \<and> (\<not> in_loop (pc s) \<and> workers s = []
          \<and> \<not> list_ex (\<lambda>ii. Errors ii \<noteq> []) (emitted s) \<longrightarrow>
        int (length (emitted s)) =
          fst (preprocessXLSXFile xf)
            - int (length (filter (\<lambda>sh. Rows sh \<noteq> []) (snd (preprocessXLSXFile xf)))))"
proof -
  let ?nxf = "snd (preprocessXLSXFile xf)"
  let ?k = "int (length (filter (\<lambda>sh. Rows sh \<noteq> []) ?nxf))"
  from assms have r: "reach c metas (process_init c (fst (preprocessXLSXFile xf)) ?nxf w) s"
    by (simp add: import_job_def)
  from reach_count [OF r] have cnt:
    "submitted s = length (emitted s) + length (filter not_emitted (workers s))"
    by (simp add: count_ok_def)
  from reach_loop [OF r] have lp:
    "submitted s + pending (pc s) = data_rows ?nxf \<or> (left_loop (pc s) \<and> failure_seen s)"
    "submitted s + pending (pc s) \<le> data_rows ?nxf"
    by (simp_all add: loop_ok_def)
  note tot = data_rows_total [of xf]
  have a: "length (emitted s) \<le> submitted s" using cnt by simp
  have b: "filter not_emitted (workers s) = [] \<longrightarrow> length (emitted s) = submitted s"
    using cnt by simp
  have c: "int (submitted s) \<le> fst (preprocessXLSXFile xf) - ?k"
    using lp(2) tot by linarith
  have d: "0 < fst (preprocessXLSXFile xf) \<longrightarrow>
      int (length (emitted s)) < fst (preprocessXLSXFile xf)"
    using a c total_positive_sheet [of xf] by linarith
  have e: "\<not> in_loop (pc s) \<and> workers s = []
          \<and> \<not> list_ex (\<lambda>ii. Errors ii \<noteq> []) (emitted s) \<longrightarrow>
        int (length (emitted s)) = fst (preprocessXLSXFile xf) - ?k"
  proof (intro impI, elim conjE)
    assume out: "\<not> in_loop (pc s)" and none: "workers s = []"
      and good: "\<not> list_ex (\<lambda>ii. Errors ii \<noteq> []) (emitted s)"
    from none good have "\<not> failure_seen s" by (simp add: failure_seen_def)
    with lp(1) have "submitted s + pending (pc s) = data_rows ?nxf" by blast
    moreover from out have "pending (pc s) = 0" by (cases "pc s") simp_all
    moreover from cnt none have "submitted s = length (emitted s)" by simp
    ultimately show "int (length (emitted s)) = fst (preprocessXLSXFile xf) - ?k"
      using tot by linarith
  qed
  from a b c d e show ?thesis by blast
qed

text \<open>
  C1, as amended, on the finished job of a file with a header row and one data row:
  one status for one submitted row, with \<open>TotalLines\<close> being 2.
\<close>

theorem statuses_and_total_lines_witness:
  "reach demo [name_meta] (import_job demo one_row_file 5) one_row_final
   \<and> length (emitted one_row_final) = submitted one_row_final
   \<and> length (emitted one_row_final) = 1
   \<and> int (length (emitted one_row_final)) < fst (preprocessXLSXFile one_row_file)
   \<and> int (length (emitted one_row_final)) = fst (preprocessXLSXFile one_row_file) - 1"
  using statuses_and_total_lines [OF one_row_reach] one_row_reach
  by (simp add: one_row_final_eq one_row_total one_row_sheets emitted_def)

text \<open>
  C1, as stated, fails on a file with a header row and one data row that does not fail:
  the job ends with \<open>Done\<close>, one status without errors was sent, and
  \<open>TotalLines\<close> is 2.
\<close>

theorem statuses_below_total_lines_counterexample:
  "reach demo [name_meta] (import_job demo one_row_file 5) one_row_final
   \<and> signals one_row_final = [Done True]
   \<and> workers one_row_final = []
   \<and> map Errors (emitted one_row_final) = [[]]
   \<and> fst (preprocessXLSXFile one_row_file) = 2
   \<and> int (length (emitted one_row_final)) \<noteq> fst (preprocessXLSXFile one_row_file)"
  using one_row_reach
  by (simp add: one_row_final_eq one_row_total emitted_def)

text \<open>
  C9: in every state of a job, at most 20 row goroutines hold a slot (have been started
  and have not yet received from \<open>throttle\<close> in their deferred function); and when
  the main goroutine is about to submit a row, it is blocked at \<open>throttle <- true\<close>
  exactly when 20 goroutines hold a slot, so that it goes on once one of them has
  released its slot.
\<close>

theorem at_most_20_rows_in_flight:
  assumes "reach c metas (process_init c n xf w) s"
  shows "in_flight s \<le> 20 \<and> in_flight s \<le> throttle s \<and> throttle s \<le> 20
    \<and> (pc s = Send hs i (r # rs) shs \<longrightarrow>
         (main_step c (pc s) s = None) = (in_flight s = 20))"
proof -
  from reach_slots [OF assms] have ok:
    "in_flight s + admitting (pc s) \<le> throttle s" "throttle s \<le> 20"
    "in_loop (pc s) \<longrightarrow> throttle s = in_flight s + admitting (pc s)"
    by (simp_all add: slots_ok_def)
  have "pc s = Send hs i (r # rs) shs \<longrightarrow>
         (main_step c (pc s) s = None) = (in_flight s = 20)"
  proof
    assume p: "pc s = Send hs i (r # rs) shs"
    with ok(3) have "throttle s = in_flight s" by simp
    with p ok(2) show "(main_step c (pc s) s = None) = (in_flight s = 20)" by auto
  qed
  with ok show ?thesis by simp
qed

text \<open>
  C9 on a file with 21 data rows, after the main goroutine has submitted 20 of them and
  no row goroutine has run yet: 20 goroutines hold a slot and the main goroutine is
  blocked before the last row.
\<close>

theorem at_most_20_rows_in_flight_witness:
  "in_flight many_rows_blocked \<le> 20
   \<and> in_flight many_rows_blocked = 20
   \<and> pc many_rows_blocked = Send [''Name''] 20 [[''Ann'']] []
   \<and> main_step demo (pc many_rows_blocked) many_rows_blocked = None"
  using at_most_20_rows_in_flight [OF many_rows_reach, of "[''Name'']" 20 "[''Ann'']" "[]" "[]"]
    many_rows_blocked_eval
  by simp

section \<open>Jobs that send no signal\<close>

text \<open>
  The counter of the WaitGroup starts at \<open>TotalLines - 1\<close>, which allows for one
  header row. On a file with two or more sheets that keep a row, the counter stays
  positive, \<open>wait.Wait()\<close> never returns, and the job sends neither \<open>Done\<close> nor
  an error unless it left the loop after a failure was seen. On a file with no rows
  kept, \<open>wait.Add(-1)\<close> panics.
\<close>

lemma main_step_wait:
  "main_step c (pc s) s = Some s' \<Longrightarrow> wait_ok t s \<Longrightarrow> wait_ok t s'"
  by (cases "(c, pc s, s)" rule: main_step.cases)
    (auto simp: wait_ok_def split: if_splits prod.splits)

lemma worker_step_wait:
  assumes k: "k < length (workers s)"
    and st: "worker_step c metas k (workers s ! k) s = Some s'"
    and ok: "wait_ok t s"
  shows "wait_ok t s'"
proof (cases "w_place (workers s ! k)")
  case Body
  from worker_step_Body [OF Body st] ok show ?thesis by (auto simp: wait_ok_def)
next
  case SetFlag
  from worker_step_SetFlag [OF SetFlag st] ok show ?thesis by (simp add: wait_ok_def)
next
  case Emit
  from worker_step_Emit [OF Emit st] ok show ?thesis by (simp add: wait_ok_def)
next
  case Release
  from worker_step_Release [OF Release st] ok show ?thesis by (simp add: wait_ok_def)
next
  case WaitDone
  from worker_step_WaitDone [OF WaitDone st] ok k show ?thesis
    by (auto simp: wait_ok_def)
qed

lemma caller_step_wait: "caller_step s = Some s' \<Longrightarrow> wait_ok t s \<Longrightarrow> wait_ok t s'"
  by (auto simp: caller_step_def wait_ok_def split: list.splits)

lemma step_wait: "step c metas s s' \<Longrightarrow> wait_ok t s \<Longrightarrow> wait_ok t s'"
  by (induction rule: step.induct)
    (blast intro: main_step_wait worker_step_wait caller_step_wait)+

lemma init_wait: "wait_ok n (process_init c n xf w)"
  by (simp add: wait_ok_def process_init_def)

lemma reach_wait: "reach c metas (process_init c n xf w) s \<Longrightarrow> wait_ok n s"
  by (induction rule: reach.induct) (auto intro: init_wait step_wait)

lemma two_sheets_wait_positive:
  assumes r: "reach c metas (import_job c xf w) s"
    and two: "2 \<le> length (filter (\<lambda>sh. Rows sh \<noteq> []) (snd (preprocessXLSXFile xf)))"
  shows "1 \<le> wait s"
proof -
  from r have r': "reach c metas
      (process_init c (fst (preprocessXLSXFile xf)) (snd (preprocessXLSXFile xf)) w) s"
    by (simp add: import_job_def)
  from reach_wait [OF r'] have
    "wait s + int (submitted s) = fst (preprocessXLSXFile xf) - 1 + int (length (workers s))"
    by (simp add: wait_ok_def)
  moreover from reach_loop [OF r'] have
    "submitted s \<le> data_rows (snd (preprocessXLSXFile xf))"
    by (simp add: loop_ok_def)
  ultimately show ?thesis
    using data_rows_total [of xf] two by linarith
qed

lemma main_step_quiet:
  "main_step c (pc s) s = Some s' \<Longrightarrow> wait s \<noteq> 0 \<Longrightarrow> loop_ok d s \<Longrightarrow>
   quiet_ok s \<Longrightarrow> quiet_ok s'"
  by (cases "(c, pc s, s)" rule: main_step.cases)
    (auto simp: quiet_ok_def loop_ok_def split: if_splits prod.splits)

lemma worker_step_quiet:
  assumes k: "k < length (workers s)"
    and st: "worker_step c metas k (workers s ! k) s = Some s'"
    and ok: "quiet_ok s"
  shows "quiet_ok s'"
proof -
  have "signals s' = signals s"
    using st by (cases "w_place (workers s ! k)")
      (auto simp: worker_step_def split: sum.splits prod.splits if_splits)
  with worker_step_failure_seen [OF k st] worker_step_frame [OF st] ok show ?thesis
    by (auto simp: quiet_ok_def)
qed

lemma caller_step_quiet: "caller_step s = Some s' \<Longrightarrow> quiet_ok s \<Longrightarrow> quiet_ok s'"
  using caller_step_emitted [of s s'] caller_step_frame [of s s']
  by (auto simp: quiet_ok_def failure_seen_def caller_step_def split: list.splits)

lemma two_sheets_quiet:
  assumes two: "2 \<le> length (filter (\<lambda>sh. Rows sh \<noteq> []) (snd (preprocessXLSXFile xf)))"
  shows "reach c metas (import_job c xf w) s \<Longrightarrow> quiet_ok s"
proof (induction rule: reach.induct)
  case init
  show ?case by (simp add: quiet_ok_def import_job_def process_init_def)
next
  case (more s s')
  from two_sheets_wait_positive [OF more.hyps(1) two] have w: "wait s \<noteq> 0" by simp
  from more.hyps(1) have "reach c metas
      (process_init c (fst (preprocessXLSXFile xf)) (snd (preprocessXLSXFile xf)) w) s"
    by (simp add: import_job_def)
  from reach_loop [OF this] have l: "loop_ok (data_rows (snd (preprocessXLSXFile xf))) s" .
  from more.hyps(2) more.IH w l show ?case
    by (induction rule: step.induct)
      (blast intro: main_step_quiet worker_step_quiet caller_step_quiet)+
qed

lemma two_sheets_no_signal:
  "reach c metas (import_job c xf w) s \<Longrightarrow>
   2 \<le> length (filter (\<lambda>sh. Rows sh \<noteq> []) (snd (preprocessXLSXFile xf))) \<Longrightarrow>
   \<not> failure_seen s \<Longrightarrow> signals s = []"
  using two_sheets_quiet [of xf c metas w s] by (simp add: quiet_ok_def split: if_splits)

lemma no_lines_crash:
  "fst (preprocessXLSXFile xf) = 0 \<Longrightarrow>
   crashed (import_job c xf w) = Some NegativeWaitGroupCounter
   \<and> signals (import_job c xf w) = []"
  by (simp add: import_job_def process_init_def)

lemma crashed_no_step: "step c metas s s' \<Longrightarrow> crashed s = None"
  by (induction rule: step.induct) simp_all

section \<open>The signals of a job\<close>

lemma conclude_shapes:
  "fst (conclude c h w) = [Done True] \<or> (\<exists>e. fst (conclude c h w) = [Error e])
   \<or> (\<exists>e. fst (conclude c h w) = [Error e, Error job_error])"
  by (auto simp: conclude_cases split: option.splits)

lemma conclude_length: "length (fst (conclude c h w)) \<le> 2 \<and> fst (conclude c h w) \<noteq> []"
  using conclude_shapes [of c h w] by auto

lemma main_step_signals:
  assumes st: "main_step c (pc s) s = Some s'" and ok: "signals_ok c s"
  shows "signals_ok c s'"
proof (cases "pc s")
  case Rollback
  with st have "pc s' = Sending (fst (conclude c (hasError s) (world s)))"
    "signals s' = signals s" "decided s' = Some (hasError s, world s)"
    by (auto split: prod.splits)
  moreover from Rollback ok have "signals s = []" by (simp add: signals_ok_def)
  ultimately show ?thesis by (simp add: signals_ok_def)
next
  case (Sending rest)
  with ok obtain h w where d: "decided s = Some (h, w)"
    and e: "signals s @ rest = fst (conclude c h w)"
    by (cases "decided s") (auto simp: signals_ok_def)
  show ?thesis
  proof (cases rest)
    case Nil
    with Sending st have "pc s' = Returned" "signals s' = signals s" "decided s' = decided s"
      by auto
    with e d Nil show ?thesis by (simp add: signals_ok_def)
  next
    case (Cons sg sgs)
    with Sending st have "pc s' = Sending sgs" "signals s' = signals s @ [sg]"
      "decided s' = decided s"
      by auto
    with e d Cons show ?thesis by (simp add: signals_ok_def)
  qed
next
  case (ForSheets shs)
  with st ok show ?thesis
    by (cases shs) (auto simp: signals_ok_def split: if_splits)
next
  case (Send hs i rs shs)
  with st ok show ?thesis
    by (cases rs) (auto simp: signals_ok_def split: if_splits)
next
  case (Check hs i r rs shs)
  with st ok show ?thesis
    by (auto simp: signals_ok_def split: if_splits)
next
  case Wait
  with st ok show ?thesis
    by (auto simp: signals_ok_def split: if_splits)
next
  case Returned
  with st show ?thesis by simp
qed

lemma worker_step_same_signals:
  "worker_step c metas k wk s = Some s' \<Longrightarrow>
   signals s' = signals s \<and> pc s' = pc s \<and> decided s' = decided s"
  by (cases "w_place wk")
    (auto simp: worker_step_def split: sum.splits prod.splits if_splits)

lemma worker_step_signals:
  "worker_step c metas k wk s = Some s' \<Longrightarrow> signals_ok c s \<Longrightarrow> signals_ok c s'"
  using worker_step_same_signals [of c metas k wk s s'] by (simp add: signals_ok_def)

lemma caller_step_signals: "caller_step s = Some s' \<Longrightarrow> signals_ok c s \<Longrightarrow> signals_ok c s'"
  by (auto simp: caller_step_def signals_ok_def split: list.splits)

lemma step_signals: "step c metas s s' \<Longrightarrow> signals_ok c s \<Longrightarrow> signals_ok c s'"
  by (induction rule: step.induct)
    (blast intro: main_step_signals worker_step_signals caller_step_signals)+

lemma init_signals: "signals_ok c (process_init c n xf w)"
  by (simp add: signals_ok_def process_init_def)

lemma reach_signals: "reach c metas (process_init c n xf w) s \<Longrightarrow> signals_ok c s"
  by (induction rule: reach.induct) (auto intro: init_signals step_signals)

lemma prefix_of_conclude:
  assumes "sgs @ rest = fst (conclude c h w)"
  shows "length (filter is_Done sgs) \<le> 1 \<and> length (filter is_Error sgs) \<le> 2
    \<and> (filter is_Done sgs = [] \<or> filter is_Error sgs = [])"
proof -
  from conclude_shapes [of c h w] assms consider
    "sgs @ rest = [Done True]" | e where "sgs @ rest = [Error e]"
    | e where "sgs @ rest = [Error e, Error job_error]"
    by auto
  then show ?thesis
  proof cases
    case 1
    then show ?thesis by (cases sgs) auto
  next
    case 2
    then show ?thesis by (cases sgs) auto
  next
    case 3
    then show ?thesis
      by (cases sgs; cases "tl sgs") (auto simp: Cons_eq_append_conv)
  qed
qed

lemma signals_ok_prefix:
  "signals_ok c s \<Longrightarrow> \<exists>rest h w. signals s @ rest = fst (conclude c h w)"
proof -
  assume ok: "signals_ok c s"
  show ?thesis
  proof (cases "decided s")
    case None
    with ok have "signals s = []"
      by (cases "pc s") (simp_all add: signals_ok_def)
    then have "signals s @ fst (conclude c True (world s)) = fst (conclude c True (world s))"
      by simp
    then show ?thesis by blast
  next
    case (Some d)
    obtain h w where d: "d = (h, w)" by (cases d)
    show ?thesis
    proof (cases "pc s")
      case (Sending rest)
      with ok Some d show ?thesis by (auto simp: signals_ok_def)
    next
      case Returned
      with ok Some d have "signals s @ [] = fst (conclude c h w)"
        by (simp add: signals_ok_def)
      then show ?thesis by blast
    qed (use ok Some in \<open>simp_all add: signals_ok_def\<close>)
  qed
qed

lemma signals_ok_returned:
  "signals_ok c s \<Longrightarrow> pc s = Returned \<Longrightarrow>
   \<exists>h w. decided s = Some (h, w) \<and> signals s = fst (conclude c h w)"
  by (cases "decided s") (auto simp: signals_ok_def)



section \<open>A flagged failure is a failure\<close>

lemma main_step_flagged:
  assumes st: "main_step c (pc s) s = Some s'" and l: "loop_ok d s" and ok: "flagged_ok s"
  shows "flagged_ok s'"
proof (cases "pc s = Rollback")
  case True
  with st have "decided s' = Some (hasError s, world s)" "failure_seen s' = failure_seen s"
    by (auto split: prod.splits)
  with l show ?thesis by (simp add: flagged_ok_def loop_ok_def)
next
  case False
  with st have "decided s' = decided s \<and> failure_seen s' = failure_seen s"
    by (cases "(c, pc s, s)" rule: main_step.cases) (auto split: if_splits)
  with ok show ?thesis by (simp add: flagged_ok_def)
qed

lemma worker_step_flagged:
  assumes k: "k < length (workers s)"
    and st: "worker_step c metas k (workers s ! k) s = Some s'"
    and ok: "flagged_ok s"
  shows "flagged_ok s'"
  using worker_step_failure_seen [OF k st] worker_step_same_signals [OF st] ok
  by (auto simp: flagged_ok_def)

lemma caller_step_flagged: "caller_step s = Some s' \<Longrightarrow> flagged_ok s \<Longrightarrow> flagged_ok s'"
  using caller_step_emitted [of s s'] caller_step_frame [of s s']
  by (auto simp: flagged_ok_def failure_seen_def caller_step_def split: list.splits)

lemma reach_flagged: "reach c metas (process_init c n xf w) s \<Longrightarrow> flagged_ok s"
proof (induction rule: reach.induct)
  case init
  show ?case by (simp add: flagged_ok_def process_init_def)
next
  case (more s s')
  note l = reach_loop [OF more.hyps(1)]
  from more.hyps(2) more.IH l show ?case
    by (induction rule: step.induct)
      (blast intro: main_step_flagged worker_step_flagged caller_step_flagged)+
qed

section \<open>Every step brings the job nearer to its end\<close>

lemma sum_update:
  "k < length xs \<Longrightarrow>
   sum_list (map f (xs[k := y])) + f (xs ! k) = sum_list (map f xs) + (f y :: nat)"
proof -
  assume k: "k < length xs"
  have a: "xs = take k xs @ xs ! k # drop (Suc k) xs"
    using k by (rule id_take_nth_drop)
  have b: "xs[k := y] = take k xs @ y # drop (Suc k) xs"
    using k by (rule upd_conv_take_nth_drop)
  have "sum_list (map f xs) =
      sum_list (map f (take k xs)) + f (xs ! k) + sum_list (map f (drop (Suc k) xs))"
    by (subst a) simp
  moreover have "sum_list (map f (xs[k := y])) =
      sum_list (map f (take k xs)) + f y + sum_list (map f (drop (Suc k) xs))"
    by (subst b) simp
  ultimately show ?thesis by simp
qed

lemma sum_remove:
  "k < length xs \<Longrightarrow>
   sum_list (map f (take k xs @ drop (Suc k) xs)) + f (xs ! k) = (sum_list (map f xs) :: nat)"
proof -
  assume k: "k < length xs"
  have a: "xs = take k xs @ xs ! k # drop (Suc k) xs"
    using k by (rule id_take_nth_drop)
  have "sum_list (map f xs) =
      sum_list (map f (take k xs)) + f (xs ! k) + sum_list (map f (drop (Suc k) xs))"
    by (subst a) simp
  then show ?thesis by simp
qed

lemma main_step_weight:
  assumes st: "main_step c (pc s) s = Some s'"
  shows "job_weight s' < job_weight s"
proof (cases "pc s = Rollback")
  case True
  with st have "pc s' = Sending (fst (conclude c (hasError s) (world s)))"
    "workers s' = workers s" "iic s' = iic s" "crashed s' = crashed s"
    by (auto split: prod.splits)
  with True conclude_length [of c "hasError s" "world s"] show ?thesis
    by (simp add: job_weight_def)
next
  case False
  with st show ?thesis
    by (cases "(c, pc s, s)" rule: main_step.cases)
      (auto simp: job_weight_def new_worker_def split: if_splits list.splits)
qed


lemma worker_step_weight:
  assumes k: "k < length (workers s)"
    and st: "worker_step c metas k (workers s ! k) s = Some s'"
    and cr: "crashed s = None"
  shows "job_weight s' < job_weight s"
proof -
  let ?wk = "workers s ! k"
  let ?f = "\<lambda>wk. place_weight (w_place wk)"
  note upd = sum_update [OF k, of ?f]
  note rem = sum_remove [OF k, of ?f]
  show ?thesis
  proof (cases "w_place ?wk")
    case Body
    from worker_step_Body [OF Body st] obtain ii p w' where
      s': "s' = s\<lparr>workers := (workers s)[k := ?wk\<lparr>w_place := SetFlag, w_ii := ii,
                       w_panic := p\<rparr>], world := w'\<rparr>"
      by blast
    from upd [of "?wk\<lparr>w_place := SetFlag, w_ii := ii, w_panic := p\<rparr>"] Body
    show ?thesis by (simp add: job_weight_def s')
  next
    case SetFlag
    note s' = worker_step_SetFlag [OF SetFlag st]
    from upd [of "?wk\<lparr>w_place := Emit\<rparr>"] SetFlag
    show ?thesis by (simp add: job_weight_def s')
  next
    case Emit
    from worker_step_Emit [OF Emit st] have
      s': "s' = s\<lparr>iic := iic s @ [w_ii ?wk],
                   workers := (workers s)[k := ?wk\<lparr>w_place := Release\<rparr>]\<rparr>"
      by simp
    from upd [of "?wk\<lparr>w_place := Release\<rparr>"] Emit
    show ?thesis by (simp add: job_weight_def s')
  next
    case Release
    from worker_step_Release [OF Release st] have
      s': "s' = s\<lparr>throttle := throttle s - 1,
                   workers := (workers s)[k := ?wk\<lparr>w_place := WaitDone\<rparr>]\<rparr>"
      by simp
    from upd [of "?wk\<lparr>w_place := WaitDone\<rparr>"] Release
    show ?thesis by (simp add: job_weight_def s')
  next
    case WaitDone
    from worker_step_WaitDone [OF WaitDone st] show ?thesis
    proof (elim disjE conjE)
      assume "s' = s\<lparr>crashed := Some NegativeWaitGroupCounter\<rparr>"
      with cr show ?thesis by (simp add: job_weight_def)
    next
      assume e: "s' = s\<lparr>wait := wait s - 1,
          workers := take k (workers s) @ drop (Suc k) (workers s),
          crashed := w_panic ?wk\<rparr>"
      have "sum_list (map ?f (workers s')) + 1 = sum_list (map ?f (workers s))"
        using rem WaitDone unfolding e by simp
      moreover have "pc s' = pc s" "iic s' = iic s" by (simp_all add: e)
      ultimately show ?thesis using cr by (simp add: job_weight_def)
    qed
  qed
qed

lemma caller_step_weight: "caller_step s = Some s' \<Longrightarrow> job_weight s' < job_weight s"
  by (auto simp: caller_step_def job_weight_def split: list.splits)

lemma step_weight: "step c metas s s' \<Longrightarrow> job_weight s' < job_weight s"
  by (induction rule: step.induct)
    (blast intro: main_step_weight worker_step_weight caller_step_weight)+

section \<open>Rows that fit their header do not panic\<close>

lemma row_task_fits:
  "length r \<le> length hs \<Longrightarrow> \<exists>res. row_task c metas n hs r w = Inr res"
proof -
  assume "length r \<le> length hs"
  then have "\<exists>vmap. build_vmap hs 0 r Map.empty = Inr vmap"
    using build_vmap_ok [of 0 hs r Map.empty] by simp
  then obtain vmap where "build_vmap hs 0 r Map.empty = Inr vmap" ..
  from row_task_eq [OF this, of c metas n w] show ?thesis by (rule exI)
qed

lemma worker_step_Body_fit:
  assumes b: "w_place wk = Body" and f: "length (w_row wk) \<le> length (w_headers wk)"
    and st: "worker_step c metas k wk s = Some s'"
  shows "\<exists>ii w'. s' = s\<lparr>workers := (workers s)[k := wk\<lparr>w_place := SetFlag, w_ii := ii\<rparr>],
                          world := w'\<rparr>"
proof -
  from row_task_fits [OF f, of c metas "Name (sheet_var s)" "world s"] obtain res where
    r: "row_task c metas (Name (sheet_var s)) (w_headers wk) (w_row wk) (world s) = Inr res"
    by blast
  obtain ii calls w' where "res = (ii, calls, w')" by (cases res) auto
  with r b st have "s' = s\<lparr>workers := (workers s)[k := wk\<lparr>w_place := SetFlag, w_ii := ii\<rparr>],
      world := w'\<rparr>"
    by (simp add: worker_step_def)
  then show ?thesis by blast
qed

lemma list_all_update: "list_all P xs \<Longrightarrow> P y \<Longrightarrow> list_all P (xs[k := y])"
  using set_update_subset_insert [of xs k y] by (auto simp: list_all_iff)

lemma list_all_remove: "list_all P xs \<Longrightarrow> list_all P (take k xs @ drop (Suc k) xs)"
  by (auto simp: list_all_iff dest: in_set_takeD in_set_dropD)

lemma main_step_fit:
  "main_step c (pc s) s = Some s' \<Longrightarrow> fit_ok s \<Longrightarrow> fit_ok s'"
  by (cases "(c, pc s, s)" rule: main_step.cases)
    (auto simp: fit_ok_def worker_fit_def new_worker_def split: if_splits prod.splits)

lemma worker_step_fit:
  assumes k: "k < length (workers s)"
    and st: "worker_step c metas k (workers s ! k) s = Some s'"
    and ok: "fit_ok s"
  shows "fit_ok s'"
proof -
  let ?wk = "workers s ! k"
  from ok have all: "list_all worker_fit (workers s)" and p: "pc_fit (pc s)"
    by (simp_all add: fit_ok_def)
  from all k have wk: "worker_fit ?wk" by (simp add: list_all_iff)
  note same = worker_step_same_signals [OF st]
  have "list_all worker_fit (workers s')"
  proof (cases "w_place ?wk")
    case Body
    from wk have "length (w_row ?wk) \<le> length (w_headers ?wk)" by (simp add: worker_fit_def)
    from worker_step_Body_fit [OF Body this st] obtain ii w' where
      s': "s' = s\<lparr>workers := (workers s)[k := ?wk\<lparr>w_place := SetFlag, w_ii := ii\<rparr>],
                   world := w'\<rparr>"
      by blast
    from wk have "worker_fit (?wk\<lparr>w_place := SetFlag, w_ii := ii\<rparr>)"
      by (simp add: worker_fit_def)
    with all show ?thesis unfolding s' by (simp add: list_all_update)
  next
    case SetFlag
    note s' = worker_step_SetFlag [OF SetFlag st]
    from wk have "worker_fit (?wk\<lparr>w_place := Emit\<rparr>)" by (simp add: worker_fit_def)
    with all show ?thesis unfolding s' by (simp add: list_all_update)
  next
    case Emit
    from worker_step_Emit [OF Emit st] have
      s': "s' = s\<lparr>iic := iic s @ [w_ii ?wk],
                   workers := (workers s)[k := ?wk\<lparr>w_place := Release\<rparr>]\<rparr>"
      by simp
    from wk have "worker_fit (?wk\<lparr>w_place := Release\<rparr>)" by (simp add: worker_fit_def)
    with all show ?thesis unfolding s' by (simp add: list_all_update)
  next
    case Release
    from worker_step_Release [OF Release st] have
      s': "s' = s\<lparr>throttle := throttle s - 1,
                   workers := (workers s)[k := ?wk\<lparr>w_place := WaitDone\<rparr>]\<rparr>"
      by simp
    from wk have "worker_fit (?wk\<lparr>w_place := WaitDone\<rparr>)" by (simp add: worker_fit_def)
    with all show ?thesis unfolding s' by (simp add: list_all_update)
  next
    case WaitDone
    from all have "list_all worker_fit (take k (workers s) @ drop (Suc k) (workers s))"
      by (rule list_all_remove)
    with worker_step_WaitDone [OF WaitDone st] all show ?thesis
      by (elim disjE conjE) simp_all
  qed
  with p same show ?thesis by (simp add: fit_ok_def)
qed

lemma caller_step_fit: "caller_step s = Some s' \<Longrightarrow> fit_ok s \<Longrightarrow> fit_ok s'"
  by (auto simp: caller_step_def fit_ok_def split: list.splits)

lemma step_fit: "step c metas s s' \<Longrightarrow> fit_ok s \<Longrightarrow> fit_ok s'"
  by (induction rule: step.induct)
    (blast intro: main_step_fit worker_step_fit caller_step_fit)+

lemma reach_fit:
  assumes f: "rows_fit xf"
  shows "reach c metas (process_init c n xf w) s \<Longrightarrow> fit_ok s"
proof (induction rule: reach.induct)
  case init
  from f show ?case by (simp add: fit_ok_def process_init_def)
next
  case (more s s')
  then show ?case by (blast intro: step_fit)
qed

section \<open>The job of a file with one sheet\<close>

lemma one_sheet_total:
  "one_sheet xf \<Longrightarrow>
   fst (preprocessXLSXFile xf) = int (data_rows (snd (preprocessXLSXFile xf))) + 1"
  using data_rows_total [of xf] by (simp add: one_sheet_def)

lemma one_sheet_wait:
  assumes r: "reach c metas (import_job c xf w) s" and one: "one_sheet xf"
  shows "wait s = int (length (workers s))
           + (int (data_rows (snd (preprocessXLSXFile xf))) - int (submitted s))
       \<and> submitted s + pending (pc s) \<le> data_rows (snd (preprocessXLSXFile xf))"
proof -
  from r have r': "reach c metas
      (process_init c (fst (preprocessXLSXFile xf)) (snd (preprocessXLSXFile xf)) w) s"
    by (simp add: import_job_def)
  from reach_wait [OF r'] have
    "wait s + int (submitted s) = fst (preprocessXLSXFile xf) - 1 + int (length (workers s))"
    by (simp add: wait_ok_def)
  moreover from reach_loop [OF r'] have
    "submitted s + pending (pc s) \<le> data_rows (snd (preprocessXLSXFile xf))"
    by (simp add: loop_ok_def)
  ultimately show ?thesis using one_sheet_total [OF one] by simp
qed

lemma worker_step_crashed:
  assumes st: "worker_step c metas k wk s = Some s'"
    and a: "1 \<le> wait s" and b: "w_panic wk = None" and cr: "crashed s = None"
  shows "crashed s' = None"
proof (cases "w_place wk")
  case Body
  from worker_step_Body [OF Body st] cr show ?thesis by auto
next
  case SetFlag
  from worker_step_SetFlag [OF SetFlag st] cr show ?thesis by simp
next
  case Emit
  from worker_step_Emit [OF Emit st] cr show ?thesis by simp
next
  case Release
  from worker_step_Release [OF Release st] cr show ?thesis by simp
next
  case WaitDone
  from worker_step_WaitDone [OF WaitDone st] a b show ?thesis by auto
qed

lemma main_step_crashed: "main_step c (pc s) s = Some s' \<Longrightarrow> crashed s' = crashed s"
  by (cases "(c, pc s, s)" rule: main_step.cases) (auto split: if_splits prod.splits)

lemma caller_step_crashed: "caller_step s = Some s' \<Longrightarrow> crashed s' = crashed s"
  by (auto simp: caller_step_def split: list.splits)

lemma first_worker_moves:
  assumes ok: "slots_ok s" and ws: "workers s = wk # wks"
    and blocked: "worker_step c metas 0 wk s = None"
  shows "iic s \<noteq> []"
proof (cases "w_place wk")
  case Body
  with blocked show ?thesis
    by (auto simp: worker_step_def split: sum.splits prod.splits)
next
  case SetFlag
  with blocked show ?thesis by (simp add: worker_step_def)
next
  case Emit
  with blocked show ?thesis by (auto simp: worker_step_def split: if_splits)
next
  case Release
  with ws have "0 < in_flight s" by (simp add: in_flight_def holds_slot_def)
  with ok have "0 < throttle s" by (simp add: slots_ok_def)
  with Release blocked show ?thesis by (simp add: worker_step_def)
next
  case WaitDone
  with blocked show ?thesis by (simp add: worker_step_def split: if_splits)
qed

lemma reach_trans: "reach c metas s1 s2 \<Longrightarrow> reach c metas s0 s1 \<Longrightarrow> reach c metas s0 s2"
  by (induction rule: reach.induct) (blast intro: reach.intros)+

lemma run_exhausts:
  "job_weight s \<le> n \<Longrightarrow> schedule c metas (run c metas n s) = None"
proof (induction n arbitrary: s)
  case 0
  show ?case
  proof (cases "schedule c metas s")
    case None
    then show ?thesis by simp
  next
    case (Some s')
    from step_weight [OF schedule_step [OF Some]] 0 show ?thesis by simp
  qed
next
  case (Suc n)
  show ?case
  proof (cases "schedule c metas s")
    case None
    then show ?thesis by simp
  next
    case (Some s')
    from step_weight [OF schedule_step [OF Some]] Suc.prems have "job_weight s' \<le> n"
      by simp
    from Suc.IH [OF this] Some show ?thesis by simp
  qed
qed

lemma no_step_schedule: "(\<forall>s'. \<not> step c metas s s') \<Longrightarrow> schedule c metas s = None"
  using schedule_step [of c metas s] by (cases "schedule c metas s") auto

lemma one_sheet_schedule_ends:
  assumes r: "reach c metas (import_job c xf w) s" and one: "one_sheet xf"
    and cr: "crashed s = None" and none: "schedule c metas s = None"
  shows "pc s = Returned \<and> workers s = [] \<and> iic s = []"
proof -
  from r have r': "reach c metas
      (process_init c (fst (preprocessXLSXFile xf)) (snd (preprocessXLSXFile xf)) w) s"
    by (simp add: import_job_def)
  note sl = reach_slots [OF r']
  note lp = reach_loop [OF r']
  note wt = one_sheet_wait [OF r one]
  from none cr have m: "main_step c (pc s) s = None" and cl: "caller_step s = None"
    and wk: "(case workers s of [] \<Rightarrow> None | wk # wks \<Rightarrow> worker_step c metas 0 wk s) = None"
    by (auto simp: schedule_def split: option.splits)
  from cl have i: "iic s = []" by (simp add: caller_step_def split: list.splits)
  have ws: "workers s = []"
  proof (cases "workers s")
    case Nil
    then show ?thesis .
  next
    case (Cons wk wks)
    with wk have "worker_step c metas 0 wk s = None" by simp
    from first_worker_moves [OF sl Cons this] i show ?thesis by simp
  qed
  have "pc s = Returned"
  proof (cases "pc s")
    case (ForSheets shs)
    with m show ?thesis by (cases shs) (auto split: if_splits)
  next
    case (Send hs i rs shs)
    with sl ws have "throttle s = 0" by (simp add: slots_ok_def in_flight_def)
    with Send m show ?thesis by (cases rs) auto
  next
    case (Check hs i r rs shs)
    with m show ?thesis by (auto split: if_splits)
  next
    case Wait
    with lp have "submitted s = data_rows (snd (preprocessXLSXFile xf))"
      by (simp add: loop_ok_def)
    with wt ws have "wait s = 0" by simp
    with Wait m show ?thesis by simp
  next
    case Rollback
    with m show ?thesis by (auto split: prod.splits)
  next
    case (Sending rest)
    with m show ?thesis by (cases rest) auto
  next
    case Returned
    then show ?thesis .
  qed
  with ws i show ?thesis by simp
qed

lemma step_no_crash:
  assumes st: "step c metas s s'" and cr: "crashed s = None" and f: "fit_ok s"
    and wt: "int (length (workers s)) \<le> wait s"
  shows "crashed s' = None"
  using st
proof (cases rule: step.cases)
  case main
  with cr show ?thesis by (simp add: main_step_crashed)
next
  case (worker k)
  from f worker(2) have "w_panic (workers s ! k) = None"
    by (simp add: fit_ok_def list_all_iff worker_fit_def)
  moreover from wt worker(2) have "1 \<le> wait s" by linarith
  ultimately show ?thesis
    using worker_step_crashed [OF worker(3) _ _ cr] by blast
next
  case caller
  with cr show ?thesis by (simp add: caller_step_crashed)
qed

lemma one_sheet_no_crash:
  assumes one: "one_sheet xf" and fit: "rows_fit (snd (preprocessXLSXFile xf))"
  shows "reach c metas (import_job c xf w) s \<Longrightarrow> crashed s = None"
proof (induction rule: reach.induct)
  case init
  from one_sheet_total [OF one] show ?case
    by (simp add: import_job_def process_init_def)
next
  case (more s s')
  from more.hyps(1) have r': "reach c metas
      (process_init c (fst (preprocessXLSXFile xf)) (snd (preprocessXLSXFile xf)) w) s"
    by (simp add: import_job_def)
  note f = reach_fit [OF fit r']
  from one_sheet_wait [OF more.hyps(1) one] have "int (length (workers s)) \<le> wait s"
    by linarith
  from step_no_crash [OF more.hyps(2) more.IH f this] show ?case .
qed


section \<open>The end of a job and its signals\<close>

lemma failed_row_reach:
  "reach demo [name_meta] (import_job demo one_row_file 1) failed_row_final"
  unfolding failed_row_final_def by (rule reach_run)

lemma failed_row_final_eval:
  "pc failed_row_final = Returned
   \<and> workers failed_row_final = [] \<and> iic failed_row_final = []
   \<and> crashed failed_row_final = None
   \<and> decided failed_row_final = Some (True, 1)
   \<and> map Errors (emitted failed_row_final) = [[Err ''blank'', Err ''short'']]
   \<and> signals failed_row_final = [Error (Err ''rollback''), Error job_error]"
  by code_simp

lemma failed_row_final_ends: "\<not> step demo [name_meta] failed_row_final s'"
proof
  assume "step demo [name_meta] failed_row_final s'"
  then show False
  proof (cases rule: step.cases)
    case main
    with failed_row_final_eval show False by simp
  next
    case (worker k)
    with failed_row_final_eval show False by simp
  next
    case caller
    with failed_row_final_eval show False by (simp add: caller_step_def)
  qed
qed

lemma one_row_fits:
  "one_sheet one_row_file \<and> rows_fit (snd (preprocessXLSXFile one_row_file))"
  by (simp add: one_sheet_def one_row_total one_row_sheets) (simp add: one_row_file_def)

lemma failed_row_first_step:
  "step demo [name_meta] (import_job demo one_row_file 1)
     (run demo [name_meta] 1 (import_job demo one_row_file 1))"
proof -
  have "schedule demo [name_meta] (import_job demo one_row_file 1) =
      Some (run demo [name_meta] 1 (import_job demo one_row_file 1))"
    by code_simp
  then show ?thesis by (rule schedule_step)
qed

text \<open>
  C3, as amended. In every state of an import job, \<open>Done\<close> has been sent at most
  once, at most two errors have been sent, and not both \<open>Done\<close> and an error.
  When \<open>process\<close> has returned, what was sent is what lines 210-226 send for the
  value of \<open>hasError\<close> and the world that the main goroutine read at the label
  \<open>rollback\<close>: \<open>Done\<close> once when the flag was clear and the commit succeeded,
  and otherwise errors and no \<open>Done\<close>; one error, except that a set flag with a
  failing rollback sends two, the rollback's error and then the batch error; after a set
  flag the last error is the batch error, and a set flag means that a status with
  errors was seen. Every step brings the job nearer to its end, so no run goes on for
  ever. For a file with exactly one sheet that keeps a row, whose rows have no more
  cells than its header row, and a caller that keeps receiving: no panic occurs, a
  state without a next step is one where \<open>process\<close> has returned and a signal was
  sent, and the schedule reaches such a state from every state of the job.
\<close>

theorem job_signals:
  assumes "reach c metas (import_job c xf w) s"
  shows "length (filter is_Done (signals s)) \<le> 1
    \<and> length (filter is_Error (signals s)) \<le> 2
    \<and> (filter is_Done (signals s) = [] \<or> filter is_Error (signals s) = [])
    \<and> (pc s = Returned \<longrightarrow>
         (\<exists>h w'. decided s = Some (h, w')
            \<and> signals s = fst (conclude c h w')
            \<and> (h \<longrightarrow> failure_seen s)
            \<and> (filter is_Done (signals s) = []) = (filter is_Error (signals s) \<noteq> [])
            \<and> length (filter is_Done (signals s)) =
                (if \<not> h \<and> fst (db_Commit c w') = None then 1 else 0)
            \<and> length (filter is_Error (signals s)) =
                (if h then (if fst (db_Rollback c w') = None then 1 else 2)
                 else (if fst (db_Commit c w') = None then 0 else 1))
            \<and> (if h then last (signals s) = Error job_error
                else signals s =
                  (case fst (db_Commit c w') of
                     Some err \<Rightarrow> [Error err] | None \<Rightarrow> [Done True]))))
    \<and> (\<forall>s'. step c metas s s' \<longrightarrow> job_weight s' < job_weight s)
    \<and> (one_sheet xf \<and> rows_fit (snd (preprocessXLSXFile xf)) \<longrightarrow>
         crashed s = None
         \<and> ((\<forall>s'. \<not> step c metas s s') \<longrightarrow> pc s = Returned \<and> signals s \<noteq> [])
         \<and> pc (run c metas (job_weight s) s) = Returned
         \<and> signals (run c metas (job_weight s) s) \<noteq> [])"
proof -
  from assms have r: "reach c metas
      (process_init c (fst (preprocessXLSXFile xf)) (snd (preprocessXLSXFile xf)) w) s"
    by (simp add: import_job_def)
  note ok = reach_signals [OF r]
  from signals_ok_prefix [OF ok] obtain rest h w' where
    "signals s @ rest = fst (conclude c h w')" by blast
  from prefix_of_conclude [OF this] have a:
    "length (filter is_Done (signals s)) \<le> 1 \<and> length (filter is_Error (signals s)) \<le> 2
     \<and> (filter is_Done (signals s) = [] \<or> filter is_Error (signals s) = [])" .
  have b: "pc s = Returned \<longrightarrow>
         (\<exists>h w'. decided s = Some (h, w')
            \<and> signals s = fst (conclude c h w')
            \<and> (h \<longrightarrow> failure_seen s)
            \<and> (filter is_Done (signals s) = []) = (filter is_Error (signals s) \<noteq> [])
            \<and> length (filter is_Done (signals s)) =
                (if \<not> h \<and> fst (db_Commit c w') = None then 1 else 0)
            \<and> length (filter is_Error (signals s)) =
                (if h then (if fst (db_Rollback c w') = None then 1 else 2)
                 else (if fst (db_Commit c w') = None then 0 else 1))
            \<and> (if h then last (signals s) = Error job_error
                else signals s =
                  (case fst (db_Commit c w') of
                     Some err \<Rightarrow> [Error err] | None \<Rightarrow> [Done True])))"
  proof
    assume "pc s = Returned"
    from signals_ok_returned [OF ok this] obtain h w' where
      d: "decided s = Some (h, w')" and e: "signals s = fst (conclude c h w')"
      by blast
    from reach_flagged [OF r] d have f: "h \<longrightarrow> failure_seen s"
      by (simp add: flagged_ok_def)
    show "\<exists>h w'. decided s = Some (h, w')
            \<and> signals s = fst (conclude c h w')
            \<and> (h \<longrightarrow> failure_seen s)
            \<and> (filter is_Done (signals s) = []) = (filter is_Error (signals s) \<noteq> [])
            \<and> length (filter is_Done (signals s)) =
                (if \<not> h \<and> fst (db_Commit c w') = None then 1 else 0)
            \<and> length (filter is_Error (signals s)) =
                (if h then (if fst (db_Rollback c w') = None then 1 else 2)
                 else (if fst (db_Commit c w') = None then 0 else 1))
            \<and> (if h then last (signals s) = Error job_error
                else signals s =
                  (case fst (db_Commit c w') of
                     Some err \<Rightarrow> [Error err] | None \<Rightarrow> [Done True]))"
      using conclude_counts [of c h w', folded e] d e f by blast
  qed
  have w: "\<forall>s'. step c metas s s' \<longrightarrow> job_weight s' < job_weight s"
    by (blast intro: step_weight)
  have l: "one_sheet xf \<and> rows_fit (snd (preprocessXLSXFile xf)) \<longrightarrow>
         crashed s = None
         \<and> ((\<forall>s'. \<not> step c metas s s') \<longrightarrow> pc s = Returned \<and> signals s \<noteq> [])
         \<and> pc (run c metas (job_weight s) s) = Returned
         \<and> signals (run c metas (job_weight s) s) \<noteq> []"
  proof (intro impI, elim conjE)
    assume one: "one_sheet xf" and fit: "rows_fit (snd (preprocessXLSXFile xf))"
    have ended: "pc t = Returned \<and> signals t \<noteq> []"
      if t: "reach c metas (import_job c xf w) t" and n: "schedule c metas t = None" for t
    proof -
      note cr = one_sheet_no_crash [OF one fit t]
      from one_sheet_schedule_ends [OF t one cr n] have p: "pc t = Returned" by simp
      from t have "reach c metas
          (process_init c (fst (preprocessXLSXFile xf)) (snd (preprocessXLSXFile xf)) w) t"
        by (simp add: import_job_def)
      from signals_ok_returned [OF reach_signals [OF this] p] conclude_length
      have "signals t \<noteq> []" by metis
      with p show ?thesis by simp
    qed
    have c1: "crashed s = None" using one_sheet_no_crash [OF one fit assms] .
    have c2: "(\<forall>s'. \<not> step c metas s s') \<longrightarrow> pc s = Returned \<and> signals s \<noteq> []"
    proof
      assume "\<forall>s'. \<not> step c metas s s'"
      then have "schedule c metas s = None" by (rule no_step_schedule)
      with assms show "pc s = Returned \<and> signals s \<noteq> []" by (rule ended)
    qed
    let ?t = "run c metas (job_weight s) s"
    have "reach c metas (import_job c xf w) ?t"
      using reach_run [of c metas s "job_weight s"] assms by (rule reach_trans)
    moreover have "schedule c metas ?t = None" by (rule run_exhausts) simp
    ultimately have c3: "pc ?t = Returned \<and> signals ?t \<noteq> []" by (rule ended)
    from c1 c2 c3
    show "crashed s = None
         \<and> ((\<forall>s'. \<not> step c metas s s') \<longrightarrow> pc s = Returned \<and> signals s \<noteq> [])
         \<and> pc (run c metas (job_weight s) s) = Returned
         \<and> signals (run c metas (job_weight s) s) \<noteq> []"
      by blast
  qed
  from a b w l show ?thesis by blast
qed

text \<open>
  C3, as amended, on the job of a file whose one data row fails validation, with a
  rollback that fails: at its last state, and at its first state for the step and the
  run to the end.
\<close>

theorem job_signals_witness:
  "pc failed_row_final = Returned
   \<and> decided failed_row_final = Some (True, 1)
   \<and> signals failed_row_final = fst (conclude demo True 1)
   \<and> failure_seen failed_row_final
   \<and> filter is_Done (signals failed_row_final) = []
   \<and> length (filter is_Error (signals failed_row_final)) = 2
   \<and> last (signals failed_row_final) = Error job_error
   \<and> one_sheet one_row_file \<and> rows_fit (snd (preprocessXLSXFile one_row_file))
   \<and> crashed failed_row_final = None
   \<and> (\<forall>s'. \<not> step demo [name_meta] failed_row_final s')
   \<and> signals failed_row_final \<noteq> []
   \<and> step demo [name_meta] (import_job demo one_row_file 1)
        (run demo [name_meta] 1 (import_job demo one_row_file 1))
   \<and> job_weight (run demo [name_meta] 1 (import_job demo one_row_file 1))
        < job_weight (import_job demo one_row_file 1)
   \<and> pc (run demo [name_meta] (job_weight (import_job demo one_row_file 1))
          (import_job demo one_row_file 1)) = Returned
   \<and> signals (run demo [name_meta] (job_weight (import_job demo one_row_file 1))
          (import_job demo one_row_file 1)) \<noteq> []"
proof -
  note end_state = job_signals [OF failed_row_reach]
  note start_state = job_signals [OF reach.init [of demo "[name_meta]"
        "import_job demo one_row_file 1"]]
  note ev = failed_row_final_eval
  from ev have p: "pc failed_row_final = Returned"
    and d: "decided failed_row_final = Some (True, 1)"
    and sg: "signals failed_row_final = [Error (Err ''rollback''), Error job_error]"
    by simp_all
  from end_state p have
    "\<exists>h w'. decided failed_row_final = Some (h, w')
       \<and> signals failed_row_final = fst (conclude demo h w')
       \<and> (h \<longrightarrow> failure_seen failed_row_final)"
    by blast
  with d have a1: "signals failed_row_final = fst (conclude demo True 1)"
    and a2: "failure_seen failed_row_final"
    by auto
  from sg have a3: "filter is_Done (signals failed_row_final) = []"
    and a4: "length (filter is_Error (signals failed_row_final)) = 2"
    and a5: "last (signals failed_row_final) = Error job_error"
    by simp_all
  note f = one_row_fits
  have e: "\<forall>s'. \<not> step demo [name_meta] failed_row_final s'"
    by (simp add: failed_row_final_ends)
  from end_state f e have b1: "crashed failed_row_final = None"
    and b2: "signals failed_row_final \<noteq> []"
    by blast+
  note st = failed_row_first_step
  from start_state st have c:
    "job_weight (run demo [name_meta] 1 (import_job demo one_row_file 1))
       < job_weight (import_job demo one_row_file 1)"
    by blast
  from start_state f have d1:
    "pc (run demo [name_meta] (job_weight (import_job demo one_row_file 1))
          (import_job demo one_row_file 1)) = Returned"
    and d2: "signals (run demo [name_meta] (job_weight (import_job demo one_row_file 1))
          (import_job demo one_row_file 1)) \<noteq> []"
    by blast+
  from p d a1 a2 a3 a4 a5 f b1 e b2 st c d1 d2 show ?thesis
    by (intro conjI) (erule conjunct1 conjunct2 | assumption)+
qed

text \<open>
  C3, as stated, fails on a job whose one data row fails validation and whose rollback
  fails: the caller receives two errors on the error channel (lines 214 and 216), not
  one.
\<close>

theorem job_two_errors_counterexample:
  "reach demo [name_meta] (import_job demo one_row_file 1) failed_row_final
   \<and> map Errors (emitted failed_row_final) = [[Err ''blank'', Err ''short'']]
   \<and> signals failed_row_final = [Error (Err ''rollback''), Error job_error]
   \<and> length (filter is_Error (signals failed_row_final)) \<noteq> 1"
  using failed_row_reach failed_row_final_eval by simp
end
